theory Spec2Isabelle
  imports Complex_Main "HOL-Library.Log_Nat" "HOL-Library.Word"
begin

section \<open>Processing Stage Model (OCRProcessingPage.jsx, lines 132-143)\<close>

text \<open>
  The status response of \<^verbatim>\<open>GET /ocr/{id}/status\<close>. The page keeps the last response in
  the hook state \<^verbatim>\<open>status\<close>, which is \<^verbatim>\<open>null\<close> until the first observation: the page
  state is a \<open>statusResponse option\<close>.
\<close>

record statusResponse =
  status :: string
  page_count :: nat
  table_count :: nat

record step =
  name :: string
  step_status :: string

record stageEntry =
  entry_name :: string
  isActive :: bool
  isCompleted :: bool

text \<open>The literal array of steps mapped over by the page, in source order.\<close>

definition steps :: "step list" where
  "steps =
    [\<lparr>name = ''Preprocessing'', step_status = ''preprocessing''\<rparr>,
     \<lparr>name = ''OCR Text Extraction'', step_status = ''ocr_processing''\<rparr>,
     \<lparr>name = ''Table Detection'', step_status = ''table_extraction''\<rparr>,
     \<lparr>name = ''Embedding Generation'', step_status = ''embedding_generation''\<rparr>,
     \<lparr>name = ''Completed'', step_status = ''completed''\<rparr>]"

text \<open>The literal array both \<^verbatim>\<open>indexOf\<close> calls search: the four non-terminal stages.\<close>

definition stage_order :: "string list" where
  "stage_order = [''preprocessing'', ''ocr_processing'', ''table_extraction'', ''embedding_generation'']"

text \<open>\<^verbatim>\<open>Array.prototype.indexOf\<close>: the first index holding the value, \<open>-1\<close> when absent.\<close>

fun indexOf :: "'a list \<Rightarrow> 'a \<Rightarrow> int" where
  "indexOf [] x = - 1"
| "indexOf (y # ys) x =
     (if y = x then 0 else (let i = indexOf ys x in if i < 0 then - 1 else i + 1))"

text \<open>
  \<^verbatim>\<open>status?.status === step.status\<close>: with \<^verbatim>\<open>status\<close> null the left side is
  \<^verbatim>\<open>undefined\<close>, which is strictly equal to no string.
\<close>

definition step_isActive :: "statusResponse option \<Rightarrow> step \<Rightarrow> bool" where
  "step_isActive st s = (case st of None \<Rightarrow> False | Some r \<Rightarrow> status r = step_status s)"

text \<open>
  \<^verbatim>\<open>status?.status === 'completed' || (status && indexOf(status.status) > indexOf(step.status))\<close>.
  With \<^verbatim>\<open>status\<close> null the expression evaluates to \<^verbatim>\<open>null\<close>; the page uses the value
  only as a condition, so the model keeps its truthiness.
\<close>

definition step_isCompleted :: "statusResponse option \<Rightarrow> step \<Rightarrow> bool" where
  "step_isCompleted st s =
     (case st of
        None \<Rightarrow> False
      | Some r \<Rightarrow>
          status r = ''completed'' \<or>
          indexOf stage_order (status r) > indexOf stage_order (step_status s))"

definition render_step :: "statusResponse option \<Rightarrow> step \<Rightarrow> stageEntry" where
  "render_step st s =
     \<lparr>entry_name = name s, isActive = step_isActive st s, isCompleted = step_isCompleted st s\<rparr>"

definition render_steps :: "statusResponse option \<Rightarrow> stageEntry list" where
  "render_steps st = map (render_step st) steps"

section \<open>Job Status Poller (ocrService.pollStatus)\<close>

text \<open>
  The transport client is an external collaborator: \<open>api_get url n\<close> is what the \<open>n\<close>-th
  request of a poll loop to \<open>url\<close> returns, an error (the promise rejects) or a response.
\<close>

record 'a response =
  data :: 'a

text \<open>What a run of the poll loop does, in order.\<close>

datatype 'e event =
    Get string
  | Update statusResponse
  | Wait nat
  | ConsoleError 'e

datatype 'e outcome = Resolved statusResponse | Rejected 'e

text \<open>\<^verbatim>\<open>getProcessingStatus\<close>: one GET of the status resource, returning \<^verbatim>\<open>response.data\<close>.\<close>

definition status_url :: "string \<Rightarrow> string" where
  "status_url documentId = ''/ocr/'' @ documentId @ ''/status''"

definition getProcessingStatus ::
  "(string \<Rightarrow> nat \<Rightarrow> 'e + statusResponse response) \<Rightarrow> string \<Rightarrow> nat \<Rightarrow> 'e + statusResponse" where
  "getProcessingStatus api_get documentId n =
     (case api_get (status_url documentId) n of
        Inl err \<Rightarrow> Inl err
      | Inr resp \<Rightarrow> Inr (data resp))"

text \<open>
  The inner \<^verbatim>\<open>poll\<close> closure. \<open>n\<close> counts the fetches made so far and \<open>tr\<close> is the trace
  so far. The callback \<open>onUpdate\<close> either returns (\<open>None\<close>) or throws (\<open>Some\<close>); a throw
  inside the \<^verbatim>\<open>try\<close> block, from the fetch or from the callback, is logged and rethrown.
  The recursive call is returned without \<^verbatim>\<open>await\<close>, so an outer \<^verbatim>\<open>catch\<close> never sees the
  rejection of an inner round: the error is logged once. The loop need not return: a run
  that polls forever has the value \<open>None\<close>.
\<close>

partial_function (option) poll ::
  "(string \<Rightarrow> nat \<Rightarrow> 'e + statusResponse response) \<Rightarrow> string \<Rightarrow> (statusResponse \<Rightarrow> 'e option) \<Rightarrow>
     nat \<Rightarrow> nat \<Rightarrow> 'e event list \<Rightarrow> ('e outcome \<times> 'e event list) option" where
  "poll api_get documentId onUpdate interval n tr =
     (case getProcessingStatus api_get documentId n of
        Inl err \<Rightarrow> Some (Rejected err, tr @ [Get (status_url documentId), ConsoleError err])
      | Inr st \<Rightarrow>
          (case onUpdate st of
             Some err \<Rightarrow>
               Some (Rejected err, tr @ [Get (status_url documentId), Update st, ConsoleError err])
           | None \<Rightarrow>
               if status st = ''completed'' \<or> status st = ''failed''
               then Some (Resolved st, tr @ [Get (status_url documentId), Update st])
               else poll api_get documentId onUpdate interval (Suc n)
                      (tr @ [Get (status_url documentId), Update st, Wait interval])))"

text \<open>\<^verbatim>\<open>pollStatus(documentId, onUpdate, interval = 2000)\<close>: an absent interval is 2000 ms.\<close>

definition interval_ms :: "nat option \<Rightarrow> nat" where
  "interval_ms interval = (case interval of None \<Rightarrow> 2000 | Some i \<Rightarrow> i)"

definition pollStatus ::
  "(string \<Rightarrow> nat \<Rightarrow> 'e + statusResponse response) \<Rightarrow> string \<Rightarrow> (statusResponse \<Rightarrow> 'e option) \<Rightarrow>
     nat option \<Rightarrow> ('e outcome \<times> 'e event list) option" where
  "pollStatus api_get documentId onUpdate interval =
     poll api_get documentId onUpdate (interval_ms interval) 0 []"

text \<open>Readers of a trace: the fetches, the observations delivered to the callback.\<close>

fun fetches :: "'e event list \<Rightarrow> nat" where
  "fetches [] = 0"
| "fetches (Get u # es) = Suc (fetches es)"
| "fetches (_ # es) = fetches es"

fun updates :: "'e event list \<Rightarrow> statusResponse list" where
  "updates [] = []"
| "updates (Update s # es) = s # updates es"
| "updates (_ # es) = updates es"

text \<open>
  \<open>spaced iv waited tr\<close>: no fetch of \<open>tr\<close> follows another fetch without a wait of \<open>iv\<close>
  in between; \<open>waited\<close> says whether a fetch may come next.
\<close>

fun spaced :: "nat \<Rightarrow> bool \<Rightarrow> 'e event list \<Rightarrow> bool" where
  "spaced iv waited [] = True"
| "spaced iv waited (Get u # es) = (waited \<and> spaced iv False es)"
| "spaced iv waited (Wait n # es) = spaced iv (waited \<or> n = iv) es"
| "spaced iv waited (_ # es) = spaced iv waited es"

fun waits :: "'e event list \<Rightarrow> nat list" where
  "waits [] = []"
| "waits (Wait n # es) = n # waits es"
| "waits (_ # es) = waits es"

text \<open>Every callback invocation of the trace directly follows a fetch.\<close>

fun fetch_then_update :: "'e event list \<Rightarrow> bool" where
  "fetch_then_update [] = True"
| "fetch_then_update (Get u # Update s # es) = fetch_then_update es"
| "fetch_then_update (Update s # es) = False"
| "fetch_then_update (_ # es) = fetch_then_update es"

definition terminal :: "statusResponse \<Rightarrow> bool" where
  "terminal st = (status st = ''completed'' \<or> status st = ''failed'')"

text \<open>The events of the non-terminal rounds \<open>n, ..., n + k - 1\<close> answered by \<open>sts\<close>.\<close>

fun rounds :: "string \<Rightarrow> nat \<Rightarrow> statusResponse list \<Rightarrow> 'e event list" where
  "rounds documentId iv [] = []"
| "rounds documentId iv (st # sts) =
     [Get (status_url documentId), Update st, Wait iv] @ rounds documentId iv sts"

text \<open>
  Round \<open>k\<close> goes on to another round: its fetch succeeds with a non-terminal status and
  the callback returns.
\<close>

definition goes_on ::
  "(string \<Rightarrow> nat \<Rightarrow> 'e + statusResponse response) \<Rightarrow> string \<Rightarrow> (statusResponse \<Rightarrow> 'e option) \<Rightarrow>
     nat \<Rightarrow> bool" where
  "goes_on api_get documentId onUpdate k =
     (case getProcessingStatus api_get documentId k of
        Inl err \<Rightarrow> False
      | Inr st \<Rightarrow> onUpdate st = None \<and> \<not> terminal st)"

text \<open>The rounds \<open>n, ..., n + length sts - 1\<close> fetched the statuses \<open>sts\<close> and all went on.\<close>

definition ran_rounds ::
  "(string \<Rightarrow> nat \<Rightarrow> 'e + statusResponse response) \<Rightarrow> string \<Rightarrow> (statusResponse \<Rightarrow> 'e option) \<Rightarrow>
     nat \<Rightarrow> statusResponse list \<Rightarrow> bool" where
  "ran_rounds api_get documentId onUpdate n sts =
     (map (getProcessingStatus api_get documentId) [n..<n + length sts] = map Inr sts \<and>
      list_all (\<lambda>st. onUpdate st = None \<and> \<not> terminal st) sts)"

section \<open>Upload Tracker (uploadService.uploadDocument, useUpload)\<close>

text \<open>
  A JavaScript number is an IEEE double. A finite double is modelled by the rational it
  denotes, next to the two infinities and NaN (a negative zero is not told apart from zero:
  no operand here is negative).
\<close>

datatype jsnum = Fin rat | PosInf | NegInf | NaN

text \<open>
  Rounding to a double. \<open>expo x\<close> is the binary exponent of a positive \<open>x\<close>
  (\<open>2^e \<le> x < 2^(e+1)\<close>); \<open>to_double\<close> keeps 53 significant bits, rounding to the nearest
  such number and, on a tie, to the one with an even significand. The operands of the percent
  computation are 64-bit byte counts, their products with 100 and the quotients of these:
  none exceeds \<open>2^71\<close> or, when positive, lies below \<open>2^-64\<close>, so the exponent range of a
  double (overflow, subnormal numbers) never matters and is left out.
\<close>

definition expo :: "rat \<Rightarrow> int" where
  "expo x = (if 1 \<le> x then bitlen \<lfloor>x\<rfloor> - 1 else - bitlen (\<lceil>1 / x\<rceil> - 1))"

definition round_half_even :: "rat \<Rightarrow> int" where
  "round_half_even m =
     (let f = \<lfloor>m\<rfloor>; d = m - of_int f
      in if d < 1 / 2 then f else if 1 / 2 < d then f + 1 else if even f then f else f + 1)"

definition to_double :: "rat \<Rightarrow> rat" where
  "to_double x =
     (if x = 0 then 0
      else let u = 2 powi (expo \<bar>x\<bar> - 52)
           in sgn x * of_int (round_half_even (\<bar>x\<bar> / u)) * u)"

text \<open>
  The \<^verbatim>\<open>loaded\<close> and \<^verbatim>\<open>total\<close> attributes of a progress event are unsigned 64-bit
  integers (\<^verbatim>\<open>unsigned long long\<close>); read from JavaScript they are the nearest doubles.
\<close>

record progressEvent =
  loaded :: "64 word"
  total :: "64 word"

definition Number :: "64 word \<Rightarrow> rat" where
  "Number w = to_double (of_nat (unat w))"

text \<open>Product and quotient of two finite numbers, rounded; the divisor \<open>0\<close> is \<open>+0\<close>.\<close>

definition js_mul :: "rat \<Rightarrow> rat \<Rightarrow> rat" where
  "js_mul a b = to_double (a * b)"

definition js_div :: "rat \<Rightarrow> rat \<Rightarrow> jsnum" where
  "js_div a b =
     (if b \<noteq> 0 then Fin (to_double (a / b))
      else if a > 0 then PosInf
      else if a < 0 then NegInf
      else NaN)"

text \<open>
  \<^verbatim>\<open>Math.round\<close>: the nearest integer, a tie going up, computed exactly from the double it
  is given; infinities and NaN pass through.
\<close>

fun Math_round :: "jsnum \<Rightarrow> jsnum" where
  "Math_round (Fin x) = Fin (of_int \<lfloor>x + 1 / 2\<rfloor>)"
| "Math_round v = v"

definition percentCompleted :: "progressEvent \<Rightarrow> jsnum" where
  "percentCompleted progressEvent =
     Math_round (js_div (js_mul (Number (loaded progressEvent)) 100)
                        (Number (total progressEvent)))"

text \<open>The rounded quotient \<^verbatim>\<open>(loaded * 100) / total\<close> of a tick with a positive total.\<close>

definition quotient :: "64 word \<Rightarrow> 64 word \<Rightarrow> rat" where
  "quotient l t = to_double (js_mul (Number l) 100 / Number t)"

text \<open>
  The \<^verbatim>\<open>onUploadProgress\<close> handler. The callback is optional (\<^verbatim>\<open>onProgress?.(...)\<close>) and
  acts on the caller's state \<open>'s\<close>.
\<close>

definition onUploadProgress :: "(jsnum \<Rightarrow> 's \<Rightarrow> 's) option \<Rightarrow> progressEvent \<Rightarrow> 's \<Rightarrow> 's" where
  "onUploadProgress onProgress progressEvent s =
     (case onProgress of
        None \<Rightarrow> s
      | Some f \<Rightarrow> f (percentCompleted progressEvent) s)"

text \<open>
  One multipart transfer as the transport performs it: the progress events it fires, in
  order, then its result.
\<close>

record ('e, 'a) transfer =
  ticks :: "progressEvent list"
  result :: "'e + 'a response"

definition uploadDocument ::
  "('e, 'a) transfer \<Rightarrow> (jsnum \<Rightarrow> 's \<Rightarrow> 's) option \<Rightarrow> 's \<Rightarrow> 's \<times> ('e + 'a)" where
  "uploadDocument t onProgress s =
     (fold (onUploadProgress onProgress) (ticks t) s,
      case result t of Inl err \<Rightarrow> Inl err | Inr resp \<Rightarrow> Inr (data resp))"

text \<open>
  The state of the \<^verbatim>\<open>useUpload\<close> hook. \<open>progress_log\<close> is a ghost field: every value
  passed to \<^verbatim>\<open>setProgress\<close>, in call order, which is what the progress consumer observes.
\<close>

record uploadState =
  uploading :: bool
  progress :: jsnum
  error :: "string option"
  progress_log :: "jsnum list"

definition setUploading :: "bool \<Rightarrow> uploadState \<Rightarrow> uploadState" where
  "setUploading b s = s\<lparr>uploading := b\<rparr>"

definition setError :: "string option \<Rightarrow> uploadState \<Rightarrow> uploadState" where
  "setError e s = s\<lparr>error := e\<rparr>"

definition setProgress :: "jsnum \<Rightarrow> uploadState \<Rightarrow> uploadState" where
  "setProgress p s = s\<lparr>progress := p, progress_log := progress_log s @ [p]\<rparr>"

text \<open>The rejection of the transport: \<^verbatim>\<open>err.response?.data?.detail\<close> may be absent.\<close>

record uploadError =
  detail :: "string option"

datatype 'a uploadResult = Success 'a | Failure "string option"

text \<open>\<^verbatim>\<open>detail || 'Upload failed'\<close>: an absent or empty detail gives the fallback.\<close>

definition detail_or :: "string option \<Rightarrow> string \<Rightarrow> string" where
  "detail_or d fallback = (case d of None \<Rightarrow> fallback | Some m \<Rightarrow> if m = [] then fallback else m)"

definition useUpload_uploadDocument ::
  "(uploadError, 'a) transfer \<Rightarrow> uploadState \<Rightarrow> uploadState \<times> 'a uploadResult" where
  "useUpload_uploadDocument t s0 =
     (let s1 = setProgress (Fin 0) (setError None (setUploading True s0));
          (s2, r) = uploadDocument t (Some (\<lambda>percent. setProgress percent)) s1
      in case r of
           Inr res \<Rightarrow> (setProgress (Fin 100) (setUploading False s2), Success res)
         | Inl err \<Rightarrow>
             (setError (Some (detail_or (detail err) ''Upload failed'')) (setUploading False s2),
              Failure (detail err)))"

text \<open>JavaScript's \<^verbatim>\<open><=\<close> on numbers: false whenever an operand is NaN.\<close>

fun js_le :: "jsnum \<Rightarrow> jsnum \<Rightarrow> bool" where
  "js_le NaN _ = False"
| "js_le _ NaN = False"
| "js_le NegInf _ = True"
| "js_le _ PosInf = True"
| "js_le (Fin a) (Fin b) = (a \<le> b)"
| "js_le _ _ = False"

text \<open>A tick sequence of one transfer of \<open>T\<close> bytes: sent bytes never decrease nor exceed \<open>T\<close>.\<close>

definition ticks_ok :: "64 word \<Rightarrow> progressEvent list \<Rightarrow> bool" where
  "ticks_ok T evs =
     (0 < T \<and> sorted (map loaded evs) \<and> list_all (\<lambda>ev. total ev = T \<and> loaded ev \<le> T) evs)"

section \<open>Query Orchestrator (queryService.queryDocuments)\<close>

text \<open>An argument of a call: absent (\<^verbatim>\<open>undefined\<close>), \<^verbatim>\<open>null\<close> or a value.\<close>

datatype 'a jsarg = Undefined | Null | Val 'a

text \<open>A default parameter value replaces \<^verbatim>\<open>undefined\<close> only.\<close>

definition default_arg :: "'a jsarg \<Rightarrow> 'a jsarg \<Rightarrow> 'a jsarg" where
  "default_arg d a = (case a of Undefined \<Rightarrow> d | _ \<Rightarrow> a)"

record queryBody =
  query :: string
  document_ids :: "string list jsarg"
  top_k :: "nat jsarg"

datatype request = POST string queryBody

definition queryDocuments ::
  "(string \<Rightarrow> queryBody \<Rightarrow> 'e + 'a response) \<Rightarrow> string \<Rightarrow> string list jsarg \<Rightarrow> nat jsarg \<Rightarrow>
     request list \<times> ('e + 'a)" where
  "queryDocuments api_post q documentIds topK =
     (let body = \<lparr>query = q,
                  document_ids = default_arg Null documentIds,
                  top_k = default_arg (Val 5) topK\<rparr>
      in ([POST ''/query/'' body],
          case api_post ''/query/'' body of Inl err \<Rightarrow> Inl err | Inr resp \<Rightarrow> Inr (data resp)))"

section \<open>Sample environments\<close>

text \<open>
  A job that is seen in \<open>ocr_processing\<close> twice and then \<open>completed\<close>, a job that stays in
  \<open>preprocessing\<close> for ever, and a transport whose second status request fails.
\<close>

definition sample_status :: "nat \<Rightarrow> statusResponse" where
  "sample_status i =
     \<lparr>status = (if i < 2 then ''ocr_processing'' else ''completed''),
      page_count = 3, table_count = 1\<rparr>"

definition sample_api :: "string \<Rightarrow> nat \<Rightarrow> string + statusResponse response" where
  "sample_api url i =
     (if url = ''/ocr/42/status'' then Inr \<lparr>data = sample_status i\<rparr> else Inl ''Not Found'')"

definition busy_status :: "nat \<Rightarrow> statusResponse" where
  "busy_status i = \<lparr>status = ''preprocessing'', page_count = 0, table_count = 0\<rparr>"

definition busy_api :: "string \<Rightarrow> nat \<Rightarrow> string + statusResponse response" where
  "busy_api url i = Inr \<lparr>data = busy_status i\<rparr>"

definition failing_api :: "string \<Rightarrow> nat \<Rightarrow> string + statusResponse response" where
  "failing_api url i = (if i = 0 then Inr \<lparr>data = busy_status i\<rparr> else Inl ''Network Error'')"

definition never_throws :: "statusResponse \<Rightarrow> string option" where
  "never_throws st = None"

text \<open>A callback that throws on every observation, and one that throws on terminal ones.\<close>

definition always_throws :: "statusResponse \<Rightarrow> string option" where
  "always_throws st = Some ''render failed''"

definition throws_when_done :: "statusResponse \<Rightarrow> string option" where
  "throws_when_done st =
     (if status st = ''completed'' \<or> status st = ''failed'' then Some ''render failed'' else None)"

text \<open>A 200-byte transfer reported at 0, 67, 67 and 199 bytes, and its successful result.\<close>

definition sample_transfer :: "(uploadError, string) transfer" where
  "sample_transfer =
     \<lparr>ticks = [\<lparr>loaded = 0, total = 200\<rparr>, \<lparr>loaded = 67, total = 200\<rparr>,
               \<lparr>loaded = 67, total = 200\<rparr>, \<lparr>loaded = 199, total = 200\<rparr>],
      result = Inr \<lparr>data = ''job-42''\<rparr>\<rparr>"

definition idle :: uploadState where
  "idle = \<lparr>uploading = False, progress = Fin 0, error = None, progress_log = []\<rparr>"

text \<open>A callback that appends the percent it is given to a list.\<close>

definition record_percent :: "jsnum \<Rightarrow> jsnum list \<Rightarrow> jsnum list" where
  "record_percent p seen = seen @ [p]"

text \<open>A query endpoint that answers every question with the question's length.\<close>

definition sample_post :: "string \<Rightarrow> queryBody \<Rightarrow> string + nat response" where
  "sample_post url body =
     (if url = ''/query/'' then Inr \<lparr>data = length (query body)\<rparr> else Inl ''Not Found'')"

section \<open>Properties of the stage model\<close>

lemma indexOf_ge: "- 1 \<le> indexOf xs x"
  by (induction xs) (auto simp: Let_def)

lemma indexOf_absent: "x \<notin> set xs \<Longrightarrow> indexOf xs x = - 1"
  by (induction xs) (auto simp: Let_def)

lemmas stage_defs =
  render_steps_def steps_def render_step_def step_isActive_def step_isCompleted_def

text \<open>
  A status outside the five values of the step list is active for no step, and its index
  \<open>-1\<close> exceeds no other index.
\<close>

lemma render_steps_other:
  assumes "status r \<notin> set stage_order" and "status r \<noteq> ''completed''"
  shows "render_steps (Some r) =
    [\<lparr>entry_name = ''Preprocessing'', isActive = False, isCompleted = False\<rparr>,
     \<lparr>entry_name = ''OCR Text Extraction'', isActive = False, isCompleted = False\<rparr>,
     \<lparr>entry_name = ''Table Detection'', isActive = False, isCompleted = False\<rparr>,
     \<lparr>entry_name = ''Embedding Generation'', isActive = False, isCompleted = False\<rparr>,
     \<lparr>entry_name = ''Completed'', isActive = False, isCompleted = False\<rparr>]"
proof -
  have idx: "indexOf stage_order (status r) = - 1"
    using assms(1) by (rule indexOf_absent)
  have low: "\<And>v. \<not> indexOf stage_order v < - 1"
    using indexOf_ge[of stage_order] by (simp add: not_less)
  have act: "status r \<noteq> ''preprocessing''" "status r \<noteq> ''ocr_processing''"
    "status r \<noteq> ''table_extraction''" "status r \<noteq> ''embedding_generation''"
    using assms(1) by (auto simp: stage_order_def)
  show ?thesis
    by (simp add: stage_defs idx low assms(2) act)
qed

text \<open>
  C1. For the status \<open>table_extraction\<close> the rendered list marks \<open>Preprocessing\<close> and
  \<open>OCR Text Extraction\<close> completed and \<open>Table Detection\<close> active and not completed, and
  \<open>Embedding Generation\<close> neither. The \<open>Completed\<close> step, however, is rendered completed:
  its status value is not in the four-element array, so its index is \<open>-1\<close>, which the
  index \<open>2\<close> of \<open>table_extraction\<close> exceeds.
\<close>

theorem render_steps_table_extraction:
  "render_steps (Some (r\<lparr>status := ''table_extraction''\<rparr>)) =
    [\<lparr>entry_name = ''Preprocessing'', isActive = False, isCompleted = True\<rparr>,
     \<lparr>entry_name = ''OCR Text Extraction'', isActive = False, isCompleted = True\<rparr>,
     \<lparr>entry_name = ''Table Detection'', isActive = True, isCompleted = False\<rparr>,
     \<lparr>entry_name = ''Embedding Generation'', isActive = False, isCompleted = False\<rparr>,
     \<lparr>entry_name = ''Completed'', isActive = False, isCompleted = True\<rparr>]"
  by (simp add: stage_defs stage_order_def)

text \<open>
  C7. For the status \<open>failed\<close> the stage list is computed (the model has no failing
  branch: a non-null status object, two array searches and comparisons) and every one of the
  five entries, the \<open>Completed\<close> step included, is neither active nor completed.
\<close>

theorem render_steps_failed:
  "render_steps (Some (r\<lparr>status := ''failed''\<rparr>)) =
    [\<lparr>entry_name = ''Preprocessing'', isActive = False, isCompleted = False\<rparr>,
     \<lparr>entry_name = ''OCR Text Extraction'', isActive = False, isCompleted = False\<rparr>,
     \<lparr>entry_name = ''Table Detection'', isActive = False, isCompleted = False\<rparr>,
     \<lparr>entry_name = ''Embedding Generation'', isActive = False, isCompleted = False\<rparr>,
     \<lparr>entry_name = ''Completed'', isActive = False, isCompleted = False\<rparr>]"
  by (rule render_steps_other) (simp_all add: stage_order_def)

text \<open>
  C9. For every status that is neither \<open>completed\<close> nor one of the four non-terminal stage
  values, every entry of the stage list is neither active nor completed.
\<close>

theorem render_steps_unlisted_status:
  assumes "status r \<notin> {''completed'', ''preprocessing'', ''ocr_processing'',
                        ''table_extraction'', ''embedding_generation''}"
  shows "list_all (\<lambda>e. \<not> isActive e \<and> \<not> isCompleted e) (render_steps (Some r)) \<and>
         map entry_name (render_steps (Some r)) = map name steps"
proof -
  from assms have "status r \<notin> set stage_order" and "status r \<noteq> ''completed''"
    by (simp_all add: stage_order_def)
  then have "render_steps (Some r) =
    [\<lparr>entry_name = ''Preprocessing'', isActive = False, isCompleted = False\<rparr>,
     \<lparr>entry_name = ''OCR Text Extraction'', isActive = False, isCompleted = False\<rparr>,
     \<lparr>entry_name = ''Table Detection'', isActive = False, isCompleted = False\<rparr>,
     \<lparr>entry_name = ''Embedding Generation'', isActive = False, isCompleted = False\<rparr>,
     \<lparr>entry_name = ''Completed'', isActive = False, isCompleted = False\<rparr>]"
    by (rule render_steps_other)
  then show ?thesis by (simp add: steps_def)
qed

theorem render_steps_unlisted_status_witness:
  "list_all (\<lambda>e. \<not> isActive e \<and> \<not> isCompleted e)
     (render_steps (Some \<lparr>status = ''uploaded'', page_count = 0, table_count = 0\<rparr>)) \<and>
   map entry_name (render_steps (Some \<lparr>status = ''uploaded'', page_count = 0, table_count = 0\<rparr>)) =
     map name steps"
  using render_steps_unlisted_status
    [of "\<lparr>status = ''uploaded'', page_count = 0, table_count = 0\<rparr>"]
  by simp

section \<open>Properties of the poll loop\<close>

lemma poll_reject_fetch:
  "getProcessingStatus api_get doc n = Inl err \<Longrightarrow>
   poll api_get doc onUpdate iv n tr = Some (Rejected err, tr @ [Get (status_url doc), ConsoleError err])"
  by (subst poll.simps) simp

lemma poll_reject_callback:
  "getProcessingStatus api_get doc n = Inr st \<Longrightarrow> onUpdate st = Some err \<Longrightarrow>
   poll api_get doc onUpdate iv n tr =
     Some (Rejected err, tr @ [Get (status_url doc), Update st, ConsoleError err])"
  by (subst poll.simps) simp

lemma poll_resolve:
  "getProcessingStatus api_get doc n = Inr st \<Longrightarrow> onUpdate st = None \<Longrightarrow> terminal st \<Longrightarrow>
   poll api_get doc onUpdate iv n tr = Some (Resolved st, tr @ [Get (status_url doc), Update st])"
  by (subst poll.simps) (simp add: terminal_def)

lemma poll_continue:
  "getProcessingStatus api_get doc n = Inr st \<Longrightarrow> onUpdate st = None \<Longrightarrow> \<not> terminal st \<Longrightarrow>
   poll api_get doc onUpdate iv n tr =
     poll api_get doc onUpdate iv (Suc n) (tr @ [Get (status_url doc), Update st, Wait iv])"
  by (subst poll.simps) (simp add: terminal_def)

lemma ran_rounds_Nil: "ran_rounds api_get doc onUpdate n []"
  by (simp add: ran_rounds_def)

lemma ran_rounds_Cons:
  "ran_rounds api_get doc onUpdate n (st # sts) \<longleftrightarrow>
     getProcessingStatus api_get doc n = Inr st \<and> onUpdate st = None \<and> \<not> terminal st \<and>
     ran_rounds api_get doc onUpdate (Suc n) sts"
proof -
  have "[n..<n + length (st # sts)] = n # [Suc n..<Suc n + length sts]"
    by (subst upt_rec) simp
  then show ?thesis
    unfolding ran_rounds_def by auto
qed

lemma poll_rounds:
  "ran_rounds api_get doc onUpdate n sts \<Longrightarrow>
   poll api_get doc onUpdate iv n tr =
     poll api_get doc onUpdate iv (n + length sts) (tr @ rounds doc iv sts)"
proof (induction sts arbitrary: n tr)
  case Nil
  then show ?case by simp
next
  case (Cons st sts)
  from Cons.prems have h0: "getProcessingStatus api_get doc n = Inr st"
    "onUpdate st = None" "\<not> terminal st" and hs: "ran_rounds api_get doc onUpdate (Suc n) sts"
    by (simp_all add: ran_rounds_Cons)
  show ?case
    using Cons.IH[OF hs, of "tr @ [Get (status_url doc), Update st, Wait iv]"]
      poll_continue[of api_get doc n st onUpdate iv tr] h0 by simp
qed

lemma goes_on_iff:
  "goes_on api_get doc onUpdate k \<longleftrightarrow>
     (\<exists>st. getProcessingStatus api_get doc k = Inr st \<and> onUpdate st = None \<and> \<not> terminal st)"
  by (auto simp: goes_on_def split: sum.splits)

lemma poll_Some_stops:
  assumes "poll api_get doc onUpdate iv n tr = Some r"
  shows "\<exists>sts. ran_rounds api_get doc onUpdate n sts \<and> \<not> goes_on api_get doc onUpdate (n + length sts)"
proof (rule poll.raw_induct[where P = "\<lambda>api_get doc onUpdate iv n tr r.
    \<exists>sts. ran_rounds api_get doc onUpdate n sts \<and> \<not> goes_on api_get doc onUpdate (n + length sts)",
    OF _ assms], goal_cases)
  case (1 poll' api_get doc onUpdate iv n tr r)
  show ?case
  proof (cases "goes_on api_get doc onUpdate n")
    case True
    then obtain st where st: "getProcessingStatus api_get doc n = Inr st" "onUpdate st = None"
      "\<not> terminal st"
      unfolding goes_on_iff by blast
    from st 1(2)
    have "poll' api_get doc onUpdate iv (Suc n) (tr @ [Get (status_url doc), Update st, Wait iv]) = Some r"
      by (simp add: terminal_def)
    then have "\<exists>sts. ran_rounds api_get doc onUpdate (Suc n) sts \<and>
        \<not> goes_on api_get doc onUpdate (Suc n + length sts)"
      by (rule 1(1))
    then obtain sts where sts: "ran_rounds api_get doc onUpdate (Suc n) sts"
      "\<not> goes_on api_get doc onUpdate (Suc n + length sts)"
      by (elim exE conjE)
    from st sts(1) have "ran_rounds api_get doc onUpdate n (st # sts)"
      by (simp add: ran_rounds_Cons)
    moreover from sts(2) have "\<not> goes_on api_get doc onUpdate (n + length (st # sts))"
      by simp
    ultimately show ?thesis by (intro exI[of _ "st # sts"] conjI)
  next
    case False
    then show ?thesis
      by (intro exI[of _ "[]"] conjI) (simp_all add: ran_rounds_Nil)
  qed
qed

lemma poll_diverges:
  assumes "\<And>k. goes_on api_get doc onUpdate k"
  shows "poll api_get doc onUpdate iv n tr = None"
proof (cases "poll api_get doc onUpdate iv n tr")
  case None then show ?thesis .
next
  case (Some r)
  from poll_Some_stops[OF Some] assms show ?thesis by blast
qed

lemma updates_append: "updates (as @ bs) = updates as @ updates bs"
  by (induction as rule: updates.induct) simp_all

lemma fetches_append: "fetches (as @ bs) = fetches as + fetches bs"
  by (induction as rule: fetches.induct) simp_all

lemma waits_append: "waits (as @ bs) = waits as @ waits bs"
  by (induction as rule: waits.induct) simp_all

lemma updates_rounds: "updates (rounds doc iv sts) = sts"
  by (induction sts) simp_all

lemma fetches_rounds: "fetches (rounds doc iv sts) = length sts"
  by (induction sts) simp_all

lemma waits_rounds: "waits (rounds doc iv sts) = replicate (length sts) iv"
  by (induction sts) simp_all

lemma fetch_then_update_rounds:
  "fetch_then_update (rounds doc iv sts @ es) = fetch_then_update es"
  by (induction sts) simp_all

lemma spaced_rounds:
  "spaced iv True (rounds doc iv sts @ es) = spaced iv True es"
  by (induction sts) simp_all

lemma getProcessingStatus_Inr:
  "api_get (status_url doc) i = Inr resp \<Longrightarrow> getProcessingStatus api_get doc i = Inr (data resp)"
  by (simp add: getProcessingStatus_def)

lemma getProcessingStatus_Inl:
  "api_get (status_url doc) i = Inl err \<Longrightarrow> getProcessingStatus api_get doc i = Inl err"
  by (simp add: getProcessingStatus_def)

lemma ran_rounds_upt:
  assumes "\<And>i. i < N \<Longrightarrow> getProcessingStatus api_get doc i = Inr (sts i) \<and>
             onUpdate (sts i) = None \<and> \<not> terminal (sts i)"
  shows "ran_rounds api_get doc onUpdate 0 (map sts [0..<N])"
  using assms by (simp add: ran_rounds_def list_all_iff)

lemma ran_rounds_nth:
  assumes "ran_rounds api_get doc onUpdate 0 xs" and "i < length xs"
  shows "getProcessingStatus api_get doc i = Inr (xs ! i)"
proof -
  from assms(1) have "map (getProcessingStatus api_get doc) [0..<length xs] = map Inr xs"
    by (simp add: ran_rounds_def)
  then have "map (getProcessingStatus api_get doc) [0..<length xs] ! i = map Inr xs ! i"
    by simp
  with assms(2) show ?thesis by simp
qed

text \<open>The trace of a run that stops with a terminal status after \<open>sts\<close>.\<close>

lemma trace_facts:
  fixes tr :: "'e event list"
  assumes "tr = rounds doc iv xs @ [Get (status_url doc), Update v]"
  shows "fetches tr = length xs + 1" "updates tr = xs @ [v]"
    "waits tr = replicate (length xs) iv" "spaced iv True tr" "fetch_then_update tr"
  using assms
  by (simp_all add: fetches_append updates_append waits_append fetches_rounds updates_rounds
      waits_rounds spaced_rounds fetch_then_update_rounds)

lemma trace_facts_thrown:
  fixes tr :: "'e event list"
  assumes "tr = rounds doc iv xs @ [Get (status_url doc), Update v, ConsoleError err]"
  shows "fetches tr = length xs + 1" "updates tr = xs @ [v]"
    "waits tr = replicate (length xs) iv" "spaced iv True tr" "fetch_then_update tr"
  using assms
  by (simp_all add: fetches_append updates_append waits_append fetches_rounds updates_rounds
      waits_rounds spaced_rounds fetch_then_update_rounds)

text \<open>
  C2, as amended. When the status requests are answered by \<open>N\<close> non-terminal statuses
  followed by a terminal one and the callback returns normally for the \<open>N\<close> non-terminal
  observations, the run ends at the terminal observation: it resolves with it when the
  callback returns there too and rejects with the callback's error otherwise. Either way
  there are exactly \<open>N + 1\<close> fetches, one callback invocation directly after each fetch,
  and \<open>N\<close> waits of the caller's interval (2000 when absent), one between any two
  consecutive fetches. When every answer is a non-terminal status and the callback always
  returns, the loop never returns.
\<close>

theorem pollStatus_terminal_run:
  "((\<forall>i<N. api_get (status_url doc) i = Inr \<lparr>data = sts i\<rparr> \<and> \<not> terminal (sts i) \<and>
            onUpdate (sts i) = None) \<and>
    api_get (status_url doc) N = Inr \<lparr>data = sts N\<rparr> \<and> terminal (sts N) \<longrightarrow>
    (\<exists>out tr. pollStatus api_get doc onUpdate interval = Some (out, tr) \<and>
       out = (case onUpdate (sts N) of None \<Rightarrow> Resolved (sts N) | Some err \<Rightarrow> Rejected err) \<and>
       tr = rounds doc (case interval of None \<Rightarrow> 2000 | Some ms \<Rightarrow> ms) (map sts [0..<N]) @
              [Get (status_url doc), Update (sts N)] @
              (case onUpdate (sts N) of None \<Rightarrow> [] | Some err \<Rightarrow> [ConsoleError err]) \<and>
       fetches tr = N + 1 \<and>
       updates tr = map sts [0..<N + 1] \<and>
       fetch_then_update tr \<and>
       waits tr = replicate N (case interval of None \<Rightarrow> 2000 | Some ms \<Rightarrow> ms) \<and>
       spaced (case interval of None \<Rightarrow> 2000 | Some ms \<Rightarrow> ms) True tr)) \<and>
   ((\<forall>i. api_get (status_url doc) i = Inr \<lparr>data = sts i\<rparr> \<and> \<not> terminal (sts i) \<and>
          onUpdate (sts i) = None) \<longrightarrow>
    pollStatus api_get doc onUpdate interval = None)"
proof (intro conjI impI)
  assume h: "(\<forall>i<N. api_get (status_url doc) i = Inr \<lparr>data = sts i\<rparr> \<and> \<not> terminal (sts i) \<and>
            onUpdate (sts i) = None) \<and>
          api_get (status_url doc) N = Inr \<lparr>data = sts N\<rparr> \<and> terminal (sts N)"
  let ?iv = "case interval of None \<Rightarrow> 2000 | Some ms \<Rightarrow> ms"
  let ?xs = "map sts [0..<N]"
  have iv: "interval_ms interval = ?iv" by (simp add: interval_ms_def)
  have lastN: "getProcessingStatus api_get doc N = Inr (sts N)" and tN: "terminal (sts N)"
    using h by (simp_all add: getProcessingStatus_Inr)
  from h have "ran_rounds api_get doc onUpdate 0 ?xs"
    by (intro ran_rounds_upt) (simp add: getProcessingStatus_Inr)
  then have "poll api_get doc onUpdate ?iv 0 [] =
      poll api_get doc onUpdate ?iv (0 + length ?xs) ([] @ rounds doc ?iv ?xs)"
    by (rule poll_rounds)
  then have start: "pollStatus api_get doc onUpdate interval =
      poll api_get doc onUpdate ?iv N (rounds doc ?iv ?xs)"
    by (simp add: pollStatus_def iv)
  show "\<exists>out tr. pollStatus api_get doc onUpdate interval = Some (out, tr) \<and>
       out = (case onUpdate (sts N) of None \<Rightarrow> Resolved (sts N) | Some err \<Rightarrow> Rejected err) \<and>
       tr = rounds doc ?iv ?xs @ [Get (status_url doc), Update (sts N)] @
              (case onUpdate (sts N) of None \<Rightarrow> [] | Some err \<Rightarrow> [ConsoleError err]) \<and>
       fetches tr = N + 1 \<and> updates tr = map sts [0..<N + 1] \<and> fetch_then_update tr \<and>
       waits tr = replicate N ?iv \<and> spaced ?iv True tr"
  proof (cases "onUpdate (sts N)")
    case None
    let ?tr = "rounds doc ?iv ?xs @ [Get (status_url doc), Update (sts N)]"
    have "pollStatus api_get doc onUpdate interval = Some (Resolved (sts N), ?tr)"
      using poll_resolve[where api_get = api_get and doc = doc and n = N and st = "sts N"
          and onUpdate = onUpdate and iv = ?iv and tr = "rounds doc ?iv ?xs"] lastN None tN
      by (simp add: start)
    moreover have "fetches ?tr = N + 1" "updates ?tr = map sts [0..<N + 1]" "fetch_then_update ?tr"
      "waits ?tr = replicate N ?iv" "spaced ?iv True ?tr"
      using trace_facts[OF refl, where doc = doc and iv = ?iv and xs = ?xs and v = "sts N"]
      by simp_all
    ultimately show ?thesis using None by simp
  next
    case (Some err)
    let ?tr = "rounds doc ?iv ?xs @ [Get (status_url doc), Update (sts N), ConsoleError err]"
    have "pollStatus api_get doc onUpdate interval = Some (Rejected err, ?tr)"
      using poll_reject_callback[where api_get = api_get and doc = doc and n = N and st = "sts N"
          and onUpdate = onUpdate and iv = ?iv and tr = "rounds doc ?iv ?xs" and err = err]
        lastN Some
      by (simp add: start)
    moreover have "fetches ?tr = N + 1" "updates ?tr = map sts [0..<N + 1]" "fetch_then_update ?tr"
      "waits ?tr = replicate N ?iv" "spaced ?iv True ?tr"
      using trace_facts_thrown[OF refl, where doc = doc and iv = ?iv and xs = ?xs
          and v = "sts N" and err = err]
      by simp_all
    ultimately show ?thesis using Some by simp
  qed
next
  assume h: "\<forall>i. api_get (status_url doc) i = Inr \<lparr>data = sts i\<rparr> \<and> \<not> terminal (sts i) \<and>
          onUpdate (sts i) = None"
  have "\<And>k. goes_on api_get doc onUpdate k"
    unfolding goes_on_iff using h by (auto simp: getProcessingStatus_Inr)
  then show "pollStatus api_get doc onUpdate interval = None"
    unfolding pollStatus_def by (rule poll_diverges)
qed

text \<open>
  C2, as stated, promises \<open>N + 1\<close> fetches for every run over such a status sequence. With
  a callback that throws, the run over two non-terminal statuses and a terminal one is
  rejected after a single fetch.
\<close>

theorem pollStatus_throwing_callback_counterexample:
  "pollStatus sample_api ''42'' always_throws None =
     Some (Rejected ''render failed'',
       [Get ''/ocr/42/status'', Update (sample_status 0), ConsoleError ''render failed'']) \<and>
   fetches [Get ''/ocr/42/status'', Update (sample_status 0),
            ConsoleError ''render failed'' :: string event] = 1 \<and>
   sample_api ''/ocr/42/status'' 0 = Inr \<lparr>data = sample_status 0\<rparr> \<and>
   sample_api ''/ocr/42/status'' 1 = Inr \<lparr>data = sample_status 1\<rparr> \<and>
   sample_api ''/ocr/42/status'' 2 = Inr \<lparr>data = sample_status 2\<rparr> \<and>
   \<not> terminal (sample_status 0) \<and> \<not> terminal (sample_status 1) \<and> terminal (sample_status 2)"
  by (simp add: pollStatus_def interval_ms_def poll.simps getProcessingStatus_def status_url_def
      sample_api_def always_throws_def sample_status_def terminal_def)

text \<open>
  C3. When the status request number \<open>k\<close> of a run fails, the run ends there: the poller
  rejects with that very error, the trace ends with the failed request and the log of the
  error, so there are \<open>k + 1\<close> fetches in all (no retry, no further fetch), and the
  callback was invoked for the \<open>k\<close> earlier observations only.
\<close>

theorem pollStatus_fetch_failure:
  assumes before: "\<forall>i<k. api_get (status_url doc) i = Inr \<lparr>data = sts i\<rparr> \<and>
                     onUpdate (sts i) = None \<and> \<not> terminal (sts i)"
    and fail: "api_get (status_url doc) k = Inl err"
  shows "\<exists>tr. pollStatus api_get doc onUpdate interval = Some (Rejected err, tr) \<and>
           tr = rounds doc (interval_ms interval) (map sts [0..<k]) @
                  [Get (status_url doc), ConsoleError err] \<and>
           fetches tr = k + 1 \<and>
           updates tr = map sts [0..<k]"
proof -
  let ?iv = "interval_ms interval"
  let ?tr = "rounds doc ?iv (map sts [0..<k]) @ [Get (status_url doc), ConsoleError err]"
  from before have "ran_rounds api_get doc onUpdate 0 (map sts [0..<k])"
    by (intro ran_rounds_upt) (simp add: getProcessingStatus_Inr)
  then have "poll api_get doc onUpdate ?iv 0 [] =
      poll api_get doc onUpdate ?iv (0 + length (map sts [0..<k])) ([] @ rounds doc ?iv (map sts [0..<k]))"
    by (rule poll_rounds)
  also have "\<dots> = Some (Rejected err, ?tr)"
    using fail by (simp add: poll_reject_fetch getProcessingStatus_Inl)
  finally have run: "pollStatus api_get doc onUpdate interval = Some (Rejected err, ?tr)"
    by (simp add: pollStatus_def)
  have "fetches ?tr = k + 1" "updates ?tr = map sts [0..<k]"
    by (simp_all add: fetches_append updates_append fetches_rounds updates_rounds)
  with run show ?thesis by blast
qed

text \<open>
  C4. In every run that resolves, the \<open>i\<close>-th callback invocation receives the answer
  of the \<open>i\<close>-th fetch, every fetch is directly followed by its callback invocation, the
  last observation delivered is a terminal one, and it is the value the poller resolves
  with.
\<close>

theorem pollStatus_resolved_order:
  assumes run: "pollStatus api_get doc onUpdate interval = Some (Resolved v, tr)"
  shows "updates tr \<noteq> [] \<and> last (updates tr) = v \<and> terminal v \<and>
         length (updates tr) = fetches tr \<and>
         (\<forall>i<length (updates tr). getProcessingStatus api_get doc i = Inr (updates tr ! i)) \<and>
         fetch_then_update tr"
proof -
  let ?iv = "interval_ms interval"
  from run have p: "poll api_get doc onUpdate ?iv 0 [] = Some (Resolved v, tr)"
    by (simp add: pollStatus_def)
  from poll_Some_stops[OF p] obtain xs where xs: "ran_rounds api_get doc onUpdate 0 xs"
    and stop: "\<not> goes_on api_get doc onUpdate (length xs)"
    by auto
  let ?L = "length xs"
  from poll_rounds[OF xs, of ?iv "[]"] p
  have q: "poll api_get doc onUpdate ?iv ?L (rounds doc ?iv xs) = Some (Resolved v, tr)"
    by simp
  have last: "getProcessingStatus api_get doc ?L = Inr v \<and> terminal v \<and>
      tr = rounds doc ?iv xs @ [Get (status_url doc), Update v]"
  proof (cases "getProcessingStatus api_get doc ?L")
    case (Inl err)
    from poll_reject_fetch[where onUpdate = onUpdate and iv = ?iv and tr = "rounds doc ?iv xs", OF Inl] q
    show ?thesis by simp
  next
    case (Inr st)
    show ?thesis
    proof (cases "onUpdate st")
      case (Some err)
      from poll_reject_callback[where onUpdate = onUpdate and iv = ?iv and tr = "rounds doc ?iv xs"
          and st = st and err = err and api_get = api_get and doc = doc and n = ?L] Inr Some q
      show ?thesis by simp
    next
      case None
      with Inr stop have t: "terminal st" by (simp add: goes_on_def)
      from poll_resolve[where onUpdate = onUpdate and iv = ?iv and tr = "rounds doc ?iv xs"
          and st = st and api_get = api_get and doc = doc and n = ?L] Inr None t q
      show ?thesis by simp
    qed
  qed
  then have tr: "tr = rounds doc ?iv xs @ [Get (status_url doc), Update v]"
    and lastv: "getProcessingStatus api_get doc ?L = Inr v" and tv: "terminal v"
    by simp_all
  have upd: "updates tr = xs @ [v]" and f: "fetches tr = ?L + 1" and ftu: "fetch_then_update tr"
    using trace_facts[OF tr] by simp_all
  have ord: "\<forall>i<length (updates tr). getProcessingStatus api_get doc i = Inr (updates tr ! i)"
  proof (intro allI impI)
    fix i assume "i < length (updates tr)"
    then have "i < ?L \<or> i = ?L" by (auto simp: upd)
    then show "getProcessingStatus api_get doc i = Inr (updates tr ! i)"
      using ran_rounds_nth[OF xs, of i] lastv by (auto simp: upd nth_append)
  qed
  from upd f ftu ord tv show ?thesis by simp
qed

lemma sample_run:
  "pollStatus sample_api ''42'' never_throws None =
     Some (Resolved (sample_status 2),
       [Get ''/ocr/42/status'', Update (sample_status 0), Wait 2000,
        Get ''/ocr/42/status'', Update (sample_status 1), Wait 2000,
        Get ''/ocr/42/status'', Update (sample_status 2)])"
  by (simp add: pollStatus_def interval_ms_def poll.simps getProcessingStatus_def status_url_def
      sample_api_def never_throws_def sample_status_def)

theorem pollStatus_terminal_run_witness:
  "(\<exists>tr. pollStatus sample_api ''42'' never_throws None = Some (Resolved (sample_status 2), tr) \<and>
         tr = [Get ''/ocr/42/status'', Update (sample_status 0), Wait 2000,
               Get ''/ocr/42/status'', Update (sample_status 1), Wait 2000,
               Get ''/ocr/42/status'', Update (sample_status 2)] \<and>
         fetches tr = 3 \<and>
         updates tr = [sample_status 0, sample_status 1, sample_status 2] \<and>
         fetch_then_update tr \<and> waits tr = [2000, 2000] \<and> spaced 2000 True tr) \<and>
   (\<exists>tr. pollStatus sample_api ''42'' throws_when_done (Some 500) =
            Some (Rejected ''render failed'', tr) \<and>
         tr = [Get ''/ocr/42/status'', Update (sample_status 0), Wait 500,
               Get ''/ocr/42/status'', Update (sample_status 1), Wait 500,
               Get ''/ocr/42/status'', Update (sample_status 2), ConsoleError ''render failed''] \<and>
         fetches tr = 3 \<and>
         updates tr = [sample_status 0, sample_status 1, sample_status 2] \<and>
         fetch_then_update tr \<and> waits tr = [500, 500] \<and> spaced 500 True tr) \<and>
   pollStatus busy_api ''42'' never_throws None = None"
proof -
  have upt: "[0..<2] = [0, 1::nat]" "[0..<2 + 1] = [0, 1, 2::nat]"
    by (simp_all add: upt_rec)
  have rep: "\<And>n::nat. replicate 2 n = [n, n]"
    by (simp add: numeral_2_eq_2)
  have a: "(\<forall>i<2. sample_api (status_url ''42'') i = Inr \<lparr>data = sample_status i\<rparr> \<and>
              \<not> terminal (sample_status i) \<and> never_throws (sample_status i) = None) \<and>
           sample_api (status_url ''42'') 2 = Inr \<lparr>data = sample_status 2\<rparr> \<and>
           terminal (sample_status 2)"
    by (simp add: sample_api_def status_url_def sample_status_def terminal_def never_throws_def)
  have a': "(\<forall>i<2. sample_api (status_url ''42'') i = Inr \<lparr>data = sample_status i\<rparr> \<and>
              \<not> terminal (sample_status i) \<and> throws_when_done (sample_status i) = None) \<and>
           sample_api (status_url ''42'') 2 = Inr \<lparr>data = sample_status 2\<rparr> \<and>
           terminal (sample_status 2)"
    by (simp add: sample_api_def status_url_def sample_status_def terminal_def throws_when_done_def)
  have b: "\<forall>i. busy_api (status_url ''42'') i = Inr \<lparr>data = busy_status i\<rparr> \<and>
              \<not> terminal (busy_status i) \<and> never_throws (busy_status i) = None"
    by (simp add: busy_api_def busy_status_def terminal_def never_throws_def)
  have cb: "never_throws (sample_status 2) = None"
    "throws_when_done (sample_status 2) = Some ''render failed''"
    by (simp_all add: never_throws_def throws_when_done_def sample_status_def)
  from pollStatus_terminal_run[of 2 sample_api "''42''" sample_status never_throws None] a
    pollStatus_terminal_run[of 2 sample_api "''42''" sample_status throws_when_done "Some 500"] a'
    pollStatus_terminal_run[of 0 busy_api "''42''" busy_status never_throws None] b
  show ?thesis
    by (simp add: cb status_url_def upt rep)
qed

theorem pollStatus_fetch_failure_witness:
  "\<exists>tr. pollStatus failing_api ''42'' never_throws (Some 500) = Some (Rejected ''Network Error'', tr) \<and>
        tr = [Get ''/ocr/42/status'', Update (busy_status 0), Wait 500,
              Get ''/ocr/42/status'', ConsoleError ''Network Error''] \<and>
        fetches tr = 2 \<and> updates tr = [busy_status 0]"
proof -
  have a: "\<forall>i<1. failing_api (status_url ''42'') i = Inr \<lparr>data = busy_status i\<rparr> \<and>
              never_throws (busy_status i) = None \<and> \<not> terminal (busy_status i)"
    by (simp add: failing_api_def never_throws_def busy_status_def terminal_def)
  have b: "failing_api (status_url ''42'') 1 = Inl ''Network Error''"
    by (simp add: failing_api_def)
  from pollStatus_fetch_failure[of 1 failing_api "''42''" busy_status never_throws "''Network Error''"
      "Some 500", OF a b]
  show ?thesis
    by (simp add: interval_ms_def status_url_def)
qed

theorem pollStatus_resolved_order_witness:
  "last (updates [Get ''/ocr/42/status'', Update (sample_status 0), Wait 2000,
        Get ''/ocr/42/status'', Update (sample_status 1), Wait 2000,
        Get ''/ocr/42/status'', Update (sample_status 2) :: string event]) = sample_status 2 \<and>
   terminal (sample_status 2) \<and>
   getProcessingStatus sample_api ''42'' 1 = Inr (sample_status 1)"
  using pollStatus_resolved_order[OF sample_run]
  by simp

section \<open>Properties of rounding to a double\<close>

lemma expo_bounds:
  assumes "0 < x"
  shows "2 powi expo x \<le> x" and "x < 2 powi (expo x + 1)"
proof -
  have "2 powi expo x \<le> x \<and> x < 2 powi (expo x + 1)"
  proof (cases "1 \<le> x")
    case True
    define n where "n = \<lfloor>x\<rfloor>"
    define b where "b = bitlen n"
    from True have n: "1 \<le> n" by (simp add: n_def le_floor_iff)
    then have "0 < n" by simp
    from bitlen_bounds[OF this] have bb: "2 ^ nat (b - 1) \<le> n" "n < 2 ^ nat b"
      by (simp_all add: b_def)
    have b1: "1 \<le> b"
    proof (rule ccontr)
      assume "\<not> 1 \<le> b"
      then have "nat b = 0" by simp
      with bb(2) n show False by simp
    qed
    have e: "expo x = b - 1" using True by (simp add: expo_def n_def b_def)
    have "(2::rat) powi (b - 1) = of_int (2 ^ nat (b - 1))"
      using b1 by (simp add: power_int_nonneg_exp)
    also have "\<dots> \<le> of_int n" using bb(1) by (simp only: of_int_le_iff)
    also have "\<dots> \<le> x" by (simp add: n_def)
    finally have lo: "2 powi (b - 1) \<le> x" .
    have "x < of_int (n + 1)" unfolding n_def using floor_correct[of x] by blast
    also have "\<dots> \<le> of_int (2 ^ nat b)"
    proof -
      from bb(2) have "n + 1 \<le> 2 ^ nat b" by simp
      then show ?thesis by (simp only: of_int_le_iff)
    qed
    also have "\<dots> = (2::rat) powi b" using b1 by (simp add: power_int_nonneg_exp)
    finally have "x < 2 powi b" .
    with lo e show ?thesis by simp
  next
    case False
    define y where "y = 1 / x"
    define c where "c = \<lceil>y\<rceil>"
    define k where "k = bitlen (c - 1)"
    from False assms have y1: "1 < y" by (simp add: y_def)
    then have c2: "2 \<le> c" unfolding c_def by (simp add: le_ceiling_iff)
    then have "0 < c - 1" by simp
    from bitlen_bounds[OF this] have bb: "2 ^ nat (k - 1) \<le> c - 1" "c - 1 < 2 ^ nat k"
      by (simp_all add: k_def)
    have k1: "1 \<le> k"
    proof (rule ccontr)
      assume "\<not> 1 \<le> k"
      then have "nat k = 0" by simp
      with bb(2) c2 show False by simp
    qed
    have e: "expo x = - k" using False by (simp add: expo_def y_def c_def k_def)
    have pk: "(2::rat) powi (- k) = 1 / of_int (2 ^ nat k)"
      using k1 by (simp add: power_int_minus_divide power_int_nonneg_exp)
    have pk1: "(2::rat) powi (- k + 1) = 1 / of_int (2 ^ nat (k - 1))"
    proof -
      have "(2::rat) powi (- k + 1) = 2 powi (- (k - 1))" by simp
      also have "\<dots> = 1 / 2 powi (k - 1)" by (rule power_int_minus_divide)
      also have "\<dots> = 1 / of_int (2 ^ nat (k - 1))" using k1 by (simp add: power_int_nonneg_exp)
      finally show ?thesis .
    qed
    have "y \<le> of_int c" by (simp add: c_def)
    also have "\<dots> \<le> of_int (2 ^ nat k)"
    proof -
      from bb(2) have "c \<le> 2 ^ nat k" by simp
      then show ?thesis by (simp only: of_int_le_iff)
    qed
    finally have "1 / x \<le> of_int (2 ^ nat k)" by (simp add: y_def)
    then have lo: "1 / of_int (2 ^ nat k) \<le> x"
      using assms by (simp add: field_simps)
    have "of_int (2 ^ nat (k - 1)) \<le> (of_int (c - 1) :: rat)"
      using bb(1) by (simp only: of_int_le_iff)
    also have "\<dots> < y" unfolding c_def using ceiling_correct[of y] by simp
    finally have "of_int (2 ^ nat (k - 1)) < 1 / x" by (simp add: y_def)
    then have hi: "x < 1 / of_int (2 ^ nat (k - 1))"
      using assms by (simp add: field_simps)
    from lo hi e pk pk1 show ?thesis by simp
  qed
  then show "2 powi expo x \<le> x" and "x < 2 powi (expo x + 1)" by simp_all
qed

lemma pow2_less_D:
  assumes "(2::rat) powi a < 2 powi b"
  shows "a < b"
proof (rule ccontr)
  assume "\<not> a < b"
  then have "b \<le> a" by simp
  then have "(2::rat) powi b \<le> 2 powi a" by (rule power_int_increasing) simp
  with assms show False by simp
qed

lemma expo_unique:
  assumes "0 < x" and "2 powi e \<le> x" and "x < 2 powi (e + 1)"
  shows "expo x = e"
proof -
  from expo_bounds[OF assms(1)] assms(2,3)
  have a: "(2::rat) powi expo x < 2 powi (e + 1)" and b: "(2::rat) powi e < 2 powi (expo x + 1)"
    by simp_all
  from a have "expo x < e + 1" by (rule pow2_less_D)
  moreover from b have "e < expo x + 1" by (rule pow2_less_D)
  ultimately show ?thesis by simp
qed

lemma expo_mono:
  assumes "0 < x" and "x \<le> y"
  shows "expo x \<le> expo y"
proof -
  from assms have "0 < y" by simp
  from expo_bounds(1)[OF assms(1)] expo_bounds(2)[OF this] assms(2)
  have "(2::rat) powi expo x < 2 powi (expo y + 1)" by simp
  then have "expo x < expo y + 1" by (rule pow2_less_D)
  then show ?thesis by simp
qed

lemma pow2_shift:
  "(2::rat) powi e = 2 ^ 52 * 2 powi (e - 52)"
  "(2::rat) powi (e + 1) = 2 ^ 53 * 2 powi (e - 52)"
  "(2::rat) powi (e - 53) = 2 powi (e - 52) / 2"
proof -
  have "(2::rat) powi e = 2 powi (52 + (e - 52))" by simp
  also have "\<dots> = 2 powi 52 * 2 powi (e - 52)" by (rule power_int_add) simp
  finally show "(2::rat) powi e = 2 ^ 52 * 2 powi (e - 52)" by simp
  have "53 + (e - 52) = e + 1" by simp
  then have "(2::rat) powi (e + 1) = 2 powi (53 + (e - 52))" by (simp only:)
  also have "\<dots> = 2 powi 53 * 2 powi (e - 52)" by (rule power_int_add) simp
  finally show "(2::rat) powi (e + 1) = 2 ^ 53 * 2 powi (e - 52)" by simp
  have "- 1 + (e - 52) = e - 53" by simp
  then have "(2::rat) powi (e - 53) = 2 powi (- 1 + (e - 52))" by (simp only:)
  also have "\<dots> = 2 powi (- 1) * 2 powi (e - 52)" by (rule power_int_add) simp
  finally show "(2::rat) powi (e - 53) = 2 powi (e - 52) / 2" by (simp add: power_int_minus)
qed

lemma round_half_even_floor:
  "round_half_even m = \<lfloor>m\<rfloor> \<or> round_half_even m = \<lfloor>m\<rfloor> + 1"
  by (simp add: round_half_even_def Let_def)

lemma round_half_even_of_int: "round_half_even (of_int k) = k"
  by (simp add: round_half_even_def)

lemma round_half_even_near: "\<bar>of_int (round_half_even m) - m\<bar> \<le> 1 / 2"
proof -
  have "of_int \<lfloor>m\<rfloor> \<le> m" "m < of_int \<lfloor>m\<rfloor> + 1" by linarith+
  then show ?thesis
    by (auto simp: round_half_even_def Let_def abs_le_iff)
qed

lemma round_half_even_unique:
  assumes "\<bar>m - of_int n\<bar> < 1 / 2"
  shows "round_half_even m = n"
proof -
  from round_half_even_near[of m] assms
  have "\<bar>(of_int (round_half_even m) :: rat) - of_int n\<bar> < 1" by linarith
  then have "\<bar>(of_int (round_half_even m - n) :: rat)\<bar> < of_int 1" by simp
  then have "\<bar>round_half_even m - n\<bar> < 1"
    by (simp only: of_int_abs[symmetric] of_int_less_iff)
  then show ?thesis by simp
qed

lemma round_half_even_mono:
  assumes "m \<le> m'"
  shows "round_half_even m \<le> round_half_even m'"
proof (cases "\<lfloor>m\<rfloor> = \<lfloor>m'\<rfloor>")
  case True
  with assms show ?thesis
    by (auto simp: round_half_even_def Let_def)
next
  case False
  with assms have "\<lfloor>m\<rfloor> < \<lfloor>m'\<rfloor>" using floor_mono[of m m'] by simp
  moreover have "round_half_even m \<le> \<lfloor>m\<rfloor> + 1" "\<lfloor>m'\<rfloor> \<le> round_half_even m'"
    using round_half_even_floor[of m] round_half_even_floor[of m'] by auto
  ultimately show ?thesis by simp
qed

lemma round_half_even_ge: "of_int k \<le> m \<Longrightarrow> k \<le> round_half_even m"
  using round_half_even_mono[of "of_int k" m] by (simp add: round_half_even_of_int)

lemma round_half_even_le: "m \<le> of_int k \<Longrightarrow> round_half_even m \<le> k"
  using round_half_even_mono[of m "of_int k"] by (simp add: round_half_even_of_int)

lemma to_double_zero: "to_double 0 = 0"
  by (simp add: to_double_def)

lemma to_double_pos:
  assumes "0 < x"
  shows "to_double x = of_int (round_half_even (x / 2 powi (expo x - 52))) * 2 powi (expo x - 52)"
  using assms by (simp add: to_double_def Let_def)

text \<open>The significand of a positive number lies in \<open>[2^52, 2^53)\<close>.\<close>

lemma significand_bounds:
  assumes "0 < x"
  shows "2 ^ 52 \<le> x / 2 powi (expo x - 52)" and "x / 2 powi (expo x - 52) < 2 ^ 53"
proof -
  have u: "0 < (2::rat) powi (expo x - 52)" by simp
  from expo_bounds[OF assms]
  have "2 ^ 52 * 2 powi (expo x - 52) \<le> x" "x < 2 ^ 53 * 2 powi (expo x - 52)"
    by (simp_all only: pow2_shift(1,2)[symmetric])
  with u show "2 ^ 52 \<le> x / 2 powi (expo x - 52)" and "x / 2 powi (expo x - 52) < 2 ^ 53"
    by (simp_all add: pos_le_divide_eq pos_divide_less_eq)
qed

lemma to_double_bounds:
  assumes "0 < x"
  shows "2 powi expo x \<le> to_double x" and "to_double x \<le> 2 powi (expo x + 1)"
proof -
  let ?u = "(2::rat) powi (expo x - 52)"
  let ?r = "round_half_even (x / ?u)"
  have u: "0 < ?u" by simp
  from significand_bounds[OF assms]
  have "(of_int (2 ^ 52) :: rat) \<le> x / ?u" "x / ?u \<le> of_int (2 ^ 53)" by simp_all
  then have "2 ^ 52 \<le> ?r" "?r \<le> 2 ^ 53"
    by (simp_all only: round_half_even_ge round_half_even_le)
  then have "(of_int (2 ^ 52) :: rat) \<le> of_int ?r" "(of_int ?r :: rat) \<le> of_int (2 ^ 53)"
    by (simp_all only: of_int_le_iff)
  then have "2 ^ 52 * ?u \<le> of_int ?r * ?u" "of_int ?r * ?u \<le> 2 ^ 53 * ?u"
    using u by simp_all
  then show "2 powi expo x \<le> to_double x" and "to_double x \<le> 2 powi (expo x + 1)"
    by (simp_all only: pow2_shift(1,2)[symmetric] to_double_pos[OF assms])
qed

lemma to_double_gt0:
  assumes "0 < x"
  shows "0 < to_double x"
proof -
  have "0 < (2::rat) powi expo x" by simp
  then show ?thesis using to_double_bounds(1)[OF assms] by (rule less_le_trans)
qed

lemma to_double_mono:
  assumes "0 \<le> x" and "x \<le> y"
  shows "to_double x \<le> to_double y"
proof (cases "x = 0")
  case True
  show ?thesis
  proof (cases "y = 0")
    case True with \<open>x = 0\<close> show ?thesis by simp
  next
    case False
    with assms have "0 < y" by simp
    from to_double_gt0[OF this] \<open>x = 0\<close> show ?thesis by (simp add: to_double_zero)
  qed
next
  case False
  with assms have x: "0 < x" and y: "0 < y" by simp_all
  have le: "expo x \<le> expo y" using x assms(2) by (rule expo_mono)
  show ?thesis
  proof (cases "expo x = expo y")
    case True
    let ?u = "(2::rat) powi (expo y - 52)"
    have u: "0 < ?u" by simp
    from assms(2) u have "x / ?u \<le> y / ?u" by (simp add: divide_right_mono)
    then have "round_half_even (x / ?u) \<le> round_half_even (y / ?u)"
      by (rule round_half_even_mono)
    then have "(of_int (round_half_even (x / ?u)) :: rat) \<le> of_int (round_half_even (y / ?u))"
      by (simp only: of_int_le_iff)
    with u have "of_int (round_half_even (x / ?u)) * ?u \<le> of_int (round_half_even (y / ?u)) * ?u"
      by simp
    then show ?thesis by (simp only: to_double_pos[OF x] to_double_pos[OF y] True)
  next
    case False
    with le have "expo x + 1 \<le> expo y" by simp
    then have "(2::rat) powi (expo x + 1) \<le> 2 powi expo y"
      by (rule power_int_increasing) simp
    with to_double_bounds(2)[OF x] to_double_bounds(1)[OF y] show ?thesis by simp
  qed
qed

lemma to_double_error:
  assumes "0 < x"
  shows "\<bar>to_double x - x\<bar> \<le> 2 powi (expo x - 53)"
proof -
  let ?u = "(2::rat) powi (expo x - 52)"
  let ?r = "round_half_even (x / ?u)"
  have u: "0 < ?u" by simp
  have "\<bar>of_int ?r - x / ?u\<bar> \<le> 1 / 2" by (rule round_half_even_near)
  then have "\<bar>of_int ?r - x / ?u\<bar> * ?u \<le> 1 / 2 * ?u"
    using u by (simp only: mult_le_cancel_right_pos)
  moreover have "\<bar>of_int ?r - x / ?u\<bar> * ?u = \<bar>of_int ?r * ?u - x\<bar>"
  proof -
    have "\<bar>of_int ?r - x / ?u\<bar> * ?u = \<bar>(of_int ?r - x / ?u) * ?u\<bar>"
      using u by (simp add: abs_mult)
    also have "(of_int ?r - x / ?u) * ?u = of_int ?r * ?u - x"
      using u by (simp add: left_diff_distrib)
    finally show ?thesis .
  qed
  ultimately have "\<bar>of_int ?r * ?u - x\<bar> \<le> ?u / 2" by simp
  then show ?thesis
    by (simp only: to_double_pos[OF assms] pow2_shift(3))
qed

text \<open>A number with at most 53 significant bits is a double.\<close>

lemma to_double_representable:
  assumes "0 < k" and "k < 2 ^ 53"
  shows "to_double (of_nat k / 2 ^ j) = of_nat k / 2 ^ j"
proof -
  let ?x = "of_nat k / 2 ^ j :: rat"
  let ?e = "expo ?x"
  let ?u = "(2::rat) powi (?e - 52)"
  from assms(1) have x: "0 < ?x" by simp
  have "?x < 2 ^ 53 / 2 ^ j"
  proof -
    from assms(2) have "(of_nat k :: rat) < of_nat (2 ^ 53)" by (simp only: of_nat_less_iff)
    then show ?thesis by (simp add: divide_strict_right_mono)
  qed
  also have "\<dots> = (2::rat) powi (53 - int j)"
    by (simp add: power_int_diff)
  finally have "(2::rat) powi ?e < 2 powi (53 - int j)"
    using expo_bounds(1)[OF x] by simp
  then have "?e < 53 - int j" by (rule pow2_less_D)
  then have d: "0 \<le> 52 - ?e - int j" by simp
  define d where "d = nat (52 - ?e - int j)"
  have "?x / ?u = of_nat k * (1 / 2 ^ j / ?u)" by simp
  also have "1 / 2 ^ j / ?u = (2::rat) powi (- int j - (?e - 52))"
  proof -
    have "(2::rat) powi (- int j - (?e - 52)) = 2 powi (- int j) / ?u"
      by (rule power_int_diff) simp
    also have "(2::rat) powi (- int j) = 1 / 2 ^ j"
      by (simp add: power_int_minus_divide)
    finally show ?thesis by simp
  qed
  also have "- int j - (?e - 52) = int d" using d by (simp add: d_def)
  finally have m: "?x / ?u = of_int (int k * 2 ^ d)" by simp
  have "to_double ?x = of_int (round_half_even (?x / ?u)) * ?u"
    using x by (rule to_double_pos)
  also have "\<dots> = ?x / ?u * ?u"
    by (simp only: m round_half_even_of_int)
  also have "\<dots> = ?x" by simp
  finally show ?thesis .
qed

lemma to_double_of_nat:
  assumes "k < 2 ^ 53"
  shows "to_double (of_nat k) = of_nat k"
proof (cases "k = 0")
  case True then show ?thesis by (simp add: to_double_zero)
next
  case False
  then have "0 < k" by simp
  from to_double_representable[OF this assms, of 0] show ?thesis by simp
qed

lemma to_double_eqI:
  assumes "0 < x" and "2 powi e \<le> x" and "x < 2 powi (e + 1)"
    and "\<bar>x / 2 powi (e - 52) - of_int n\<bar> < 1 / 2"
  shows "to_double x = of_int n * 2 powi (e - 52)"
proof -
  have e: "expo x = e" using assms(1-3) by (rule expo_unique)
  have "round_half_even (x / 2 powi (e - 52)) = n"
    using assms(4) by (rule round_half_even_unique)
  then show ?thesis by (simp add: to_double_pos[OF assms(1)] e)
qed

section \<open>Properties of the upload tracker\<close>

lemma to_double_nonneg: "0 \<le> x \<Longrightarrow> 0 \<le> to_double x"
  using to_double_mono[of 0 x] by (simp add: to_double_zero)

lemma Number_nonneg: "0 \<le> Number w"
  unfolding Number_def by (rule to_double_nonneg) (simp only: of_nat_0_le_iff)

lemma Number_mono:
  assumes "l \<le> t"
  shows "Number l \<le> Number t"
proof -
  from assms have "unat l \<le> unat t" by (simp add: word_le_nat_alt)
  then have "(of_nat (unat l) :: rat) \<le> of_nat (unat t)" by (simp only: of_nat_le_iff)
  moreover have "(0::rat) \<le> of_nat (unat l)" by (simp only: of_nat_0_le_iff)
  ultimately show ?thesis unfolding Number_def by (intro to_double_mono)
qed

lemma Number_pos:
  assumes "0 < t"
  shows "0 < Number t"
proof -
  from assms have "0 < unat t" by (simp add: word_less_nat_alt)
  then have "(0::rat) < of_nat (unat t)" by (simp only: of_nat_0_less_iff)
  then show ?thesis unfolding Number_def by (rule to_double_gt0)
qed

lemma Number_zero: "Number 0 = 0"
  by (simp add: Number_def to_double_zero)

lemma Number_exact: "unat w < 2 ^ 53 \<Longrightarrow> Number w = of_nat (unat w)"
  unfolding Number_def by (rule to_double_of_nat)

lemma js_mul_nonneg: "0 \<le> a \<Longrightarrow> 0 \<le> js_mul a 100"
  unfolding js_mul_def by (rule to_double_nonneg) simp

lemma js_mul_pos: "0 < a \<Longrightarrow> 0 < js_mul a 100"
  unfolding js_mul_def by (rule to_double_gt0) simp

lemma js_mul_mono: "0 \<le> a \<Longrightarrow> a \<le> b \<Longrightarrow> js_mul a 100 \<le> js_mul b 100"
  unfolding js_mul_def by (rule to_double_mono) simp_all

lemma percentCompleted_pos:
  assumes "0 < total ev"
  shows "percentCompleted ev = Fin (of_int \<lfloor>quotient (loaded ev) (total ev) + 1 / 2\<rfloor>)"
  using Number_pos[OF assms] by (simp add: percentCompleted_def js_div_def quotient_def)

lemma quotient_nonneg:
  assumes "0 < t"
  shows "0 \<le> quotient l t"
proof -
  have "0 \<le> js_mul (Number l) 100 / Number t"
    using js_mul_nonneg[OF Number_nonneg, of l] Number_pos[OF assms] by simp
  from to_double_mono[OF order_refl this] show ?thesis
    by (simp add: quotient_def to_double_zero)
qed

lemma quotient_mono:
  assumes "0 < t" and "l \<le> l'"
  shows "quotient l t \<le> quotient l' t"
  unfolding quotient_def
proof (rule to_double_mono)
  show "0 \<le> js_mul (Number l) 100 / Number t"
    using js_mul_nonneg[OF Number_nonneg, of l] Number_pos[OF assms(1)] by simp
  have "js_mul (Number l) 100 \<le> js_mul (Number l') 100"
    using Number_nonneg Number_mono[OF assms(2)] by (rule js_mul_mono)
  then show "js_mul (Number l) 100 / Number t \<le> js_mul (Number l') 100 / Number t"
    using Number_pos[OF assms(1)] by (simp add: divide_right_mono)
qed

lemma pow2_shift53: "(2::rat) powi (e - 53) = 2 powi e / 2 ^ 53"
proof -
  have "(2::rat) powi (e - 53) = 2 powi e / 2 powi 53" by (rule power_int_diff) simp
  then show ?thesis by simp
qed

text \<open>A product with 100 is rounded up by less than a quarter of a percent.\<close>

lemma js_mul_upper:
  assumes "0 < a"
  shows "js_mul a 100 \<le> a * (401 / 4)"
proof -
  let ?x = "a * 100"
  from assms have x: "0 < ?x" by simp
  from to_double_error[OF x] have "to_double ?x \<le> ?x + 2 powi (expo ?x - 53)"
    by (simp add: abs_le_iff)
  also have "2 powi (expo ?x - 53) \<le> ?x / 2 ^ 53"
    using expo_bounds(1)[OF x] by (simp add: pow2_shift53 divide_right_mono)
  also have "?x + ?x / 2 ^ 53 \<le> a * (401 / 4)"
    using assms by (simp add: field_simps)
  finally show ?thesis by (simp add: js_mul_def)
qed

lemma quotient_le:
  assumes "0 < t" and "l \<le> t"
  shows "quotient l t \<le> 401 / 4"
proof -
  have T: "0 < Number t" using assms(1) by (rule Number_pos)
  have "quotient l t \<le> quotient t t" using assms by (rule quotient_mono)
  also have "quotient t t \<le> to_double (401 / 4)"
    unfolding quotient_def
  proof (rule to_double_mono)
    show "0 \<le> js_mul (Number t) 100 / Number t"
      using js_mul_nonneg[OF Number_nonneg, of t] T by simp
    show "js_mul (Number t) 100 / Number t \<le> 401 / 4"
      using js_mul_upper[OF T] T by (simp add: pos_divide_le_eq mult.commute)
  qed
  also have "to_double (401 / 4) = 401 / 4"
    using to_double_representable[of 401 2] by simp
  finally show ?thesis .
qed

lemma percent_range:
  assumes "0 < t" and "l \<le> t"
  shows "0 \<le> \<lfloor>quotient l t + 1 / 2\<rfloor>" and "\<lfloor>quotient l t + 1 / 2\<rfloor> \<le> 100"
proof -
  from quotient_nonneg[OF assms(1), of l] show "0 \<le> \<lfloor>quotient l t + 1 / 2\<rfloor>"
    by (simp add: le_floor_iff)
  from quotient_le[OF assms] have "quotient l t + 1 / 2 < of_int (100 + 1)" by simp
  then have "\<lfloor>quotient l t + 1 / 2\<rfloor> < 100 + 1" by (simp only: floor_less_iff)
  then show "\<lfloor>quotient l t + 1 / 2\<rfloor> \<le> 100" by simp
qed

lemma expo_le6:
  assumes "0 < q" and "q \<le> 100"
  shows "expo q \<le> 6"
proof -
  have "expo (100::rat) = 6" by (rule expo_unique) simp_all
  with expo_mono[OF assms] show ?thesis by simp
qed

text \<open>Below \<open>2^46\<close> bytes the double computation rounds like the exact quotient.\<close>

lemma quotient_round_exact:
  assumes t0: "0 < t" and lt: "l \<le> t" and small: "unat t < 2 ^ 46"
  shows "\<lfloor>quotient l t + 1 / 2\<rfloor> = round (of_nat (unat l) * 100 / of_nat (unat t) :: rat)"
proof -
  define L where "L = unat l"
  define T where "T = unat t"
  define q where "q = (of_nat L * 100 / of_nat T :: rat)"
  define m where "m = round q"
  from t0 have T0: "0 < T" by (simp add: T_def word_less_nat_alt)
  from lt have LT: "L \<le> T" by (simp add: L_def T_def word_le_nat_alt)
  from small have T46: "T < 2 ^ 46" by (simp add: T_def)
  from LT T46 have "L < 2 ^ 46" by simp
  then have L100: "L * 100 < 2 ^ 53" by simp
  have NT: "Number t = of_nat T" unfolding T_def
    using small by (intro Number_exact) simp
  have NL: "Number l = of_nat L" unfolding L_def
    using \<open>L < 2 ^ 46\<close> by (intro Number_exact) (simp add: L_def)
  have "js_mul (Number l) 100 = to_double (of_nat (L * 100))" by (simp add: js_mul_def NL)
  also have "\<dots> = of_nat (L * 100)" using L100 by (rule to_double_of_nat)
  finally have quot: "quotient l t = to_double q" by (simp add: quotient_def NT q_def)
  have q0: "0 \<le> q" by (simp add: q_def)
  have q100: "q \<le> 100"
  proof -
    from LT have "(of_nat L :: rat) \<le> of_nat T" by (simp only: of_nat_le_iff)
    with T0 show ?thesis by (simp add: q_def pos_divide_le_eq)
  qed
  have mq: "of_int m \<le> q + 1 / 2" "q + 1 / 2 < of_int m + 1"
    unfolding m_def round_def by linarith+
  have "\<lfloor>to_double q + 1 / 2\<rfloor> = m"
  proof (cases "q = 0")
    case True
    then show ?thesis by (simp add: m_def to_double_zero round_def floor_eq_iff)
  next
    case False
    with q0 have qpos: "0 < q" by simp
    have lower: "of_int m \<le> to_double q + 1 / 2"
    proof (cases "m \<le> 0")
      case True
      then have "(of_int m :: rat) \<le> 0" by simp
      with to_double_gt0[OF qpos] show ?thesis by simp
    next
      case False
      define k where "k = nat (2 * m - 1)"
      from False have k0: "0 < k" by (simp add: k_def)
      from mq(1) q100 have "(of_int m :: rat) \<le> of_int 100 + 1 / 2" by simp
      then have "(of_int m :: rat) < of_int 101" by simp
      then have "m < 101" by (simp only: of_int_less_iff)
      then have k53: "k < 2 ^ 53" by (simp add: k_def)
      have h: "(of_nat k / 2 ^ 1 :: rat) = of_int m - 1 / 2"
        using False by (simp add: k_def field_simps)
      have "of_int m - 1 / 2 \<le> q" using mq(1) by simp
      then have "to_double (of_int m - 1 / 2) \<le> to_double q"
        using False by (intro to_double_mono) simp_all
      moreover have "to_double (of_int m - 1 / 2) = of_int m - 1 / 2"
        using to_double_representable[OF k0 k53, of 1] by (simp only: h)
      ultimately show ?thesis by simp
    qed
    have upper: "to_double q + 1 / 2 < of_int m + 1"
    proof -
      have "to_double q \<le> q + 2 powi (expo q - 53)"
        using to_double_error[OF qpos] by (simp add: abs_le_iff)
      also have "(2::rat) powi (expo q - 53) \<le> 2 powi (6 - 53)"
        using expo_le6[OF qpos q100] by (intro power_int_increasing) simp_all
      also have "(2::rat) powi (6 - 53) = 1 / 2 ^ 47" by (simp add: power_int_minus_divide)
      finally have e: "to_double q \<le> q + 1 / 2 ^ 47" by simp
      have "(of_nat T :: rat) < of_nat (2 ^ 46)" using T46 by (simp only: of_nat_less_iff)
      then have T': "(of_nat T :: rat) < 2 ^ 46" by simp
      have gap: "q + 1 / (2 * of_nat T) \<le> of_int m + 1 / 2"
      proof -
        from mq(2) have "q < of_int m + 1 / 2" by simp
        then have "of_nat L * 100 < (of_int m + 1 / 2) * (of_nat T :: rat)"
          using T0 by (simp add: q_def pos_divide_less_eq)
        then have "(of_int (200 * int L) :: rat) < of_int ((2 * m + 1) * int T)"
          by (simp add: algebra_simps)
        then have "200 * int L < (2 * m + 1) * int T" by (simp only: of_int_less_iff)
        then have "200 * int L + 1 \<le> (2 * m + 1) * int T" by simp
        then have "(of_int (200 * int L + 1) :: rat) \<le> of_int ((2 * m + 1) * int T)"
          by (simp only: of_int_le_iff)
        then have "of_nat L * 200 + 1 \<le> (2 * of_int m + 1) * (of_nat T :: rat)"
          by (simp add: algebra_simps)
        then show ?thesis using T0 by (simp add: q_def field_simps)
      qed
      have "1 / 2 ^ 47 < 1 / (2 * (of_nat T :: rat))"
        using T0 T' by (simp add: field_simps)
      with e gap show ?thesis by linarith
    qed
    from lower upper show ?thesis by (simp add: floor_eq_iff)
  qed
  then show ?thesis by (simp add: quot m_def q_def L_def T_def)
qed

lemma round_as_div:
  assumes "0 < (T::nat)"
  shows "round (of_nat L * 100 / of_nat T :: rat) = (200 * int L + int T) div (2 * int T)"
proof -
  have "(of_nat L * 100 / of_nat T :: rat) + 1 / 2 =
      of_int (200 * int L + int T) / of_int (2 * int T)"
    using assms by (simp add: field_simps)
  then have "round (of_nat L * 100 / of_nat T :: rat) =
      \<lfloor>(of_int (200 * int L + int T) :: rat) / of_int (2 * int T)\<rfloor>"
    by (simp only: round_def)
  then show ?thesis by (simp only: floor_divide_of_int_eq)
qed

lemma percent_total_zero:
  assumes "total ev = 0"
  shows "percentCompleted ev = (if loaded ev = 0 then NaN else PosInf)"
proof (cases "loaded ev = 0")
  case True
  with assms show ?thesis
    by (simp add: percentCompleted_def js_div_def js_mul_def Number_zero to_double_zero)
next
  case False
  then have "0 < loaded ev" by (simp add: word_neq_0_conv)
  then have "0 < js_mul (Number (loaded ev)) 100" by (intro js_mul_pos Number_pos)
  with assms False show ?thesis
    by (simp add: percentCompleted_def js_div_def Number_zero)
qed

lemma to_double_pow2: "to_double (2 powi n) = 2 powi n"
proof -
  have "to_double (2 powi n) = of_int (2 ^ 52) * 2 powi (n - 52)"
  proof (rule to_double_eqI)
    show "(2::rat) powi n < 2 powi (n + 1)" by (rule power_int_strict_increasing) simp_all
    have "(2::rat) powi n / 2 powi (n - 52) = 2 ^ 52"
      by (simp add: pow2_shift(1)[of n])
    then show "\<bar>(2::rat) powi n / 2 powi (n - 52) - of_int (2 ^ 52)\<bar> < 1 / 2" by simp
  qed simp_all
  then show ?thesis by (simp add: pow2_shift(1)[of n])
qed

text \<open>
  The positive operands of the percent computation stay within \<open>[2^-64, 2^71]\<close>, well
  inside the range of normal doubles.
\<close>

lemma operands_in_range:
  assumes "0 < l" and "0 < t"
  shows "1 \<le> Number l" "Number l \<le> 2 ^ 64"
    "1 \<le> js_mul (Number l) 100" "js_mul (Number l) 100 \<le> 2 ^ 71"
    "1 / 2 ^ 64 \<le> js_mul (Number l) 100 / Number t" "js_mul (Number l) 100 / Number t \<le> 2 ^ 71"
proof -
  have num: "1 \<le> Number w \<and> Number w \<le> 2 ^ 64" if "0 < w" for w :: "64 word"
  proof -
    from that have "1 \<le> unat w" by (simp add: word_less_nat_alt)
    then have "(of_nat 1 :: rat) \<le> of_nat (unat w)" by (simp only: of_nat_le_iff)
    then have lo: "(1::rat) \<le> of_nat (unat w)" by (simp only: of_nat_1)
    have len: "LENGTH(64) = 64" by simp
    have "unat w < 2 ^ LENGTH(64)" by (rule unsigned_less)
    then have "unat w \<le> 2 ^ 64" by (simp only: len less_imp_le)
    then have "(of_nat (unat w) :: rat) \<le> of_nat (2 ^ 64)" by (simp only: of_nat_le_iff)
    then have hi: "(of_nat (unat w) :: rat) \<le> 2 powi 64" by simp
    have "to_double (2 powi 0) \<le> to_double (of_nat (unat w))"
      using lo by (intro to_double_mono) simp_all
    moreover have "to_double (of_nat (unat w)) \<le> to_double (2 powi 64)"
      using lo hi by (intro to_double_mono) linarith+
    ultimately show ?thesis
      unfolding Number_def by (simp only: to_double_pow2) simp
  qed
  from num[OF assms(1)] show L: "1 \<le> Number l" "Number l \<le> 2 ^ 64" by simp_all
  from num[OF assms(2)] have T: "1 \<le> Number t" "Number t \<le> 2 ^ 64" by simp_all
  have "to_double (2 powi 0) \<le> to_double (Number l * 100)"
    using L(1) by (intro to_double_mono) simp_all
  moreover have "to_double (Number l * 100) \<le> to_double (2 powi 71)"
    using L by (intro to_double_mono) simp_all
  ultimately show P: "1 \<le> js_mul (Number l) 100" "js_mul (Number l) 100 \<le> 2 ^ 71"
    unfolding js_mul_def by (simp_all only: to_double_pow2) simp_all
  have "1 / 2 ^ 64 \<le> 1 / Number t" using T by (simp add: field_simps)
  also have "1 / Number t \<le> js_mul (Number l) 100 / Number t"
    using P(1) T(1) by (simp add: divide_right_mono)
  finally show "1 / 2 ^ 64 \<le> js_mul (Number l) 100 / Number t" .
  have "js_mul (Number l) 100 / Number t \<le> js_mul (Number l) 100 / 1"
    using P(1) T(1) by (intro divide_left_mono) simp_all
  with P(2) show "js_mul (Number l) 100 / Number t \<le> 2 ^ 71" by simp
qed

text \<open>A tick of 70016900456910 bytes out of 70368744177799: the double quotient is 99.5.\<close>

lemma large_tick_percent:
  "percentCompleted \<lparr>loaded = 70016900456910, total = 70368744177799\<rparr> = Fin 100"
proof -
  have l: "unat (70016900456910 :: 64 word) = 70016900456910"
    and t: "unat (70368744177799 :: 64 word) = 70368744177799" by simp_all
  have NL: "Number (70016900456910 :: 64 word) = 70016900456910"
    using Number_exact[of "70016900456910 :: 64 word"] by (simp only: l) simp
  have NT: "Number (70368744177799 :: 64 word) = 70368744177799"
    using Number_exact[of "70368744177799 :: 64 word"] by (simp only: t) simp
  have prod: "js_mul 70016900456910 100 = 7001690045691000"
    using to_double_of_nat[of 7001690045691000] by (simp add: js_mul_def)
  have "to_double (7001690045691000 / 70368744177799) = of_int 7001690045677568 * 2 powi (6 - 52)"
    by (rule to_double_eqI) (simp_all add: power_int_minus_divide)
  also have "\<dots> = 199 / 2" by (simp add: power_int_minus_divide)
  finally have q: "to_double (7001690045691000 / 70368744177799) = 199 / 2" .
  have "\<lfloor>199 / 2 + 1 / 2 :: rat\<rfloor> = 100" by (simp add: floor_eq_iff)
  then show ?thesis
    by (simp add: percentCompleted_def js_div_def NL NT prod q)
qed

text \<open>
  C6, as amended. On a tick with \<open>0 < total\<close> and \<open>loaded \<le> total\<close> the handler invokes
  the callback with an integer between 0 and 100. When \<open>total\<close> is below \<open>2^46\<close> that
  integer is the one nearest to the exact quotient \<open>loaded * 100 / total\<close> (a tie going
  up), that is \<open>(200 * loaded + total) div (2 * total)\<close>.
\<close>

theorem onUploadProgress_percent:
  assumes "0 < total ev" and "loaded ev \<le> total ev"
  shows "\<exists>p::int. onUploadProgress (Some f) ev s = f (Fin (of_int p)) s \<and>
           0 \<le> p \<and> p \<le> 100 \<and>
           (unat (total ev) < 2 ^ 46 \<longrightarrow>
              p = round (of_nat (unat (loaded ev)) * 100 / of_nat (unat (total ev)) :: rat) \<and>
              p = (200 * int (unat (loaded ev)) + int (unat (total ev))) div
                    (2 * int (unat (total ev))))"
proof -
  let ?p = "\<lfloor>quotient (loaded ev) (total ev) + 1 / 2\<rfloor>"
  have "onUploadProgress (Some f) ev s = f (Fin (of_int ?p)) s"
    using assms(1) by (simp add: onUploadProgress_def percentCompleted_pos)
  moreover have "0 \<le> ?p" "?p \<le> 100"
    using assms by (rule percent_range)+
  moreover have "unat (total ev) < 2 ^ 46 \<longrightarrow>
      ?p = round (of_nat (unat (loaded ev)) * 100 / of_nat (unat (total ev)) :: rat) \<and>
      ?p = (200 * int (unat (loaded ev)) + int (unat (total ev))) div (2 * int (unat (total ev)))"
  proof
    assume small: "unat (total ev) < 2 ^ 46"
    from assms(1) have T0: "0 < unat (total ev)" by (simp add: word_less_nat_alt)
    have "?p = round (of_nat (unat (loaded ev)) * 100 / of_nat (unat (total ev)) :: rat)"
      using assms small by (rule quotient_round_exact)
    then show "?p = round (of_nat (unat (loaded ev)) * 100 / of_nat (unat (total ev)) :: rat) \<and>
      ?p = (200 * int (unat (loaded ev)) + int (unat (total ev))) div (2 * int (unat (total ev)))"
      by (simp only: round_as_div[OF T0] simp_thms)
  qed
  ultimately show ?thesis by blast
qed

text \<open>
  C6, as stated, promises the integer nearest to the exact quotient on every tick. For
  70016900456910 bytes out of 70368744177799 the exact quotient lies just below 99.5 and
  rounds to 99, while the double quotient is 99.5 and the callback receives 100.
\<close>

theorem onUploadProgress_percent_counterexample:
  "onUploadProgress (Some record_percent)
     \<lparr>loaded = 70016900456910, total = 70368744177799\<rparr> [] = [Fin 100] \<and>
   round (70016900456910 * 100 / 70368744177799 :: rat) = 99 \<and>
   (0 :: 64 word) < 70368744177799 \<and> (70016900456910 :: 64 word) \<le> 70368744177799"
  by (simp add: onUploadProgress_def large_tick_percent record_percent_def round_def floor_eq_iff)

lemma fold_onUploadProgress:
  "fold (onUploadProgress (Some (\<lambda>percent. setProgress percent))) evs s =
     s\<lparr>progress := (if evs = [] then progress s else percentCompleted (last evs)),
       progress_log := progress_log s @ map percentCompleted evs\<rparr>"
  by (induction evs arbitrary: s) (simp_all add: onUploadProgress_def setProgress_def)

lemma percent_sequence_sorted:
  assumes "ticks_ok T evs"
  shows "sorted_wrt js_le (Fin 0 # map percentCompleted evs @ [Fin 100])"
proof -
  let ?pct = "\<lambda>ev. \<lfloor>quotient (loaded ev) T + 1 / 2\<rfloor>"
  from assms have T: "0 < T" and srt: "sorted_wrt (\<lambda>a b. loaded a \<le> loaded b) evs"
    and each: "\<And>ev. ev \<in> set evs \<Longrightarrow> total ev = T \<and> loaded ev \<le> T"
    by (simp_all add: ticks_ok_def list_all_iff sorted_map)
  have pc: "\<And>ev. ev \<in> set evs \<Longrightarrow> percentCompleted ev = Fin (of_int (?pct ev))"
    using each T by (simp add: percentCompleted_pos)
  have bounds: "\<And>ev. ev \<in> set evs \<Longrightarrow> 0 \<le> ?pct ev \<and> ?pct ev \<le> 100"
    using each T percent_range[of T] by simp
  have "sorted_wrt (\<lambda>a b. js_le (percentCompleted a) (percentCompleted b)) evs"
    using srt
  proof (rule sorted_wrt_mono_rel[rotated])
    fix a b assume ab: "a \<in> set evs" "b \<in> set evs" "loaded a \<le> loaded b"
    from quotient_mono[OF T ab(3)]
    have "quotient (loaded a) T + 1 / 2 \<le> quotient (loaded b) T + 1 / 2" by simp
    then have "?pct a \<le> ?pct b" by (rule floor_mono)
    with ab show "js_le (percentCompleted a) (percentCompleted b)"
      by (simp add: pc)
  qed
  then have mid: "sorted_wrt js_le (map percentCompleted evs)"
    by (simp add: sorted_wrt_map)
  have lo: "\<And>ev. ev \<in> set evs \<Longrightarrow> js_le (Fin 0) (percentCompleted ev)"
    using bounds by (simp add: pc)
  have hi: "\<And>ev. ev \<in> set evs \<Longrightarrow> js_le (percentCompleted ev) (Fin 100)"
  proof -
    fix ev assume ev: "ev \<in> set evs"
    then have "(of_int (?pct ev) :: rat) \<le> of_int 100" using bounds by (simp only: of_int_le_iff)
    then show "js_le (percentCompleted ev) (Fin 100)" using ev by (simp add: pc)
  qed
  show ?thesis
    using mid lo hi by (auto simp: sorted_wrt_append)
qed

text \<open>
  C5. For a transfer that succeeds and whose ticks report non-decreasing sent bytes bounded
  by one positive total, the values the hook passes to \<^verbatim>\<open>setProgress\<close> during the call
  are 0, the percent of each tick in order, and 100; that sequence never decreases, and the
  progress left after the call is 100.
\<close>

theorem useUpload_progress_monotone:
  assumes "ticks_ok T (ticks t)" and "result t = Inr resp"
  shows "\<exists>s' seen. useUpload_uploadDocument t s0 = (s', Success (data resp)) \<and>
           progress_log s' = progress_log s0 @ seen \<and>
           seen = Fin 0 # map percentCompleted (ticks t) @ [Fin 100] \<and>
           sorted_wrt js_le seen \<and>
           progress s' = Fin 100 \<and> \<not> uploading s'"
proof -
  have "sorted_wrt js_le (Fin 0 # map percentCompleted (ticks t) @ [Fin 100])"
    using assms(1) by (rule percent_sequence_sorted)
  moreover have "\<exists>s'. useUpload_uploadDocument t s0 = (s', Success (data resp)) \<and>
      progress_log s' = progress_log s0 @ Fin 0 # map percentCompleted (ticks t) @ [Fin 100] \<and>
      progress s' = Fin 100 \<and> \<not> uploading s'"
    using assms(2)
    by (simp add: useUpload_uploadDocument_def uploadDocument_def fold_onUploadProgress
        setProgress_def setUploading_def setError_def)
  ultimately show ?thesis by blast
qed

text \<open>
  C10, as amended. The handler divides by \<open>total\<close> with no guard. On a tick with
  \<open>total = 0\<close> the callback receives NaN when \<open>loaded = 0\<close> and Infinity when
  \<open>loaded > 0\<close>; the percent is an integer exactly when \<open>total\<close> is positive.
\<close>

theorem percent_without_total:
  "(total ev = 0 \<longrightarrow>
      onUploadProgress (Some f) ev s = f (if loaded ev = 0 then NaN else PosInf) s) \<and>
   ((\<exists>p::int. percentCompleted ev = Fin (of_int p)) \<longleftrightarrow> 0 < total ev)"
proof (intro conjI impI)
  assume "total ev = 0"
  then show "onUploadProgress (Some f) ev s = f (if loaded ev = 0 then NaN else PosInf) s"
    by (simp add: onUploadProgress_def percent_total_zero)
next
  show "(\<exists>p::int. percentCompleted ev = Fin (of_int p)) \<longleftrightarrow> 0 < total ev"
  proof (cases "total ev = 0")
    case True
    then show ?thesis by (simp add: percent_total_zero)
  next
    case False
    then have "0 < total ev" by (simp add: word_neq_0_conv)
    then show ?thesis using percentCompleted_pos[of ev] by auto
  qed
qed

text \<open>
  C10, as stated, says that every tick with \<open>total = 0\<close> passes NaN. A tick with 5 bytes
  sent and \<open>total = 0\<close> passes Infinity.
\<close>

theorem percent_not_NaN_counterexample:
  "onUploadProgress (Some record_percent) \<lparr>loaded = 5, total = 0\<rparr> [] = [PosInf] \<and> PosInf \<noteq> NaN"
  by (simp add: onUploadProgress_def percent_total_zero record_percent_def)

section \<open>Properties of the query orchestrator\<close>

text \<open>
  C8. Called with absent or null document ids, \<^verbatim>\<open>queryDocuments\<close> issues exactly one
  request, a POST to \<^verbatim>\<open>/query/\<close> whose body holds the question unchanged,
  \<open>document_ids = null\<close> and the given \<open>top_k\<close>, and resolves with the data of the
  server's response as it is.
\<close>

theorem queryDocuments_unrestricted:
  assumes "documentIds = Undefined \<or> documentIds = Null"
    and "api_post ''/query/'' \<lparr>query = q, document_ids = Null, top_k = Val k\<rparr> = Inr resp"
  shows "queryDocuments api_post q documentIds (Val k) =
           ([POST ''/query/'' \<lparr>query = q, document_ids = Null, top_k = Val k\<rparr>], Inr (data resp))"
  using assms by (auto simp: queryDocuments_def default_arg_def)

lemma small_tick_percent:
  "percentCompleted \<lparr>loaded = 0, total = 200\<rparr> = Fin 0"
  "percentCompleted \<lparr>loaded = 67, total = 200\<rparr> = Fin 34"
  "percentCompleted \<lparr>loaded = 199, total = 200\<rparr> = Fin 100"
proof -
  have half: "\<lfloor>1 / 2 :: rat\<rfloor> = 0" by (simp add: floor_eq_iff)
  have u: "unat (200 :: 64 word) = 200" "unat (0 :: 64 word) = 0" "unat (67 :: 64 word) = 67"
    "unat (199 :: 64 word) = 199" by simp_all
  have r: "\<And>l. l \<le> (200 :: 64 word) \<Longrightarrow> percentCompleted \<lparr>loaded = l, total = 200\<rparr> =
      Fin (of_int (round (of_nat (unat l) * 100 / 200 :: rat)))"
    using quotient_round_exact[of 200] by (simp add: percentCompleted_pos u del: of_nat_unat)
  show "percentCompleted \<lparr>loaded = 0, total = 200\<rparr> = Fin 0"
    "percentCompleted \<lparr>loaded = 67, total = 200\<rparr> = Fin 34"
    "percentCompleted \<lparr>loaded = 199, total = 200\<rparr> = Fin 100"
    by (simp_all add: r u round_def half del: of_nat_unat)
qed

theorem onUploadProgress_percent_witness:
  "onUploadProgress (Some record_percent) \<lparr>loaded = 67, total = 200\<rparr> [] = [Fin 34] \<and>
   round (67 * 100 / 200 :: rat) = 34 \<and> (200 * 67 + 200) div (2 * 200) = (34 :: int)"
proof -
  have u: "unat (200 :: 64 word) = 200" "unat (67 :: 64 word) = 67" by simp_all
  have half: "\<lfloor>1 / 2 :: rat\<rfloor> = 0" by (simp add: floor_eq_iff)
  have r: "round (67 * 100 / 200 :: rat) = 34" by (simp add: round_def half)
  from onUploadProgress_percent[of "\<lparr>loaded = 67, total = 200\<rparr>" record_percent "[]"]
  show ?thesis
    by (simp add: u r record_percent_def del: of_nat_unat)
qed

theorem useUpload_progress_monotone_witness:
  "\<exists>s'. useUpload_uploadDocument sample_transfer idle = (s', Success ''job-42'') \<and>
         progress_log s' = [Fin 0, Fin 0, Fin 34, Fin 34, Fin 100, Fin 100] \<and>
         sorted_wrt js_le (progress_log s') \<and> progress s' = Fin 100"
proof -
  have ok: "ticks_ok 200 (ticks sample_transfer)"
    by (simp add: ticks_ok_def sample_transfer_def)
  have res: "result sample_transfer = Inr \<lparr>data = ''job-42''\<rparr>"
    by (simp add: sample_transfer_def)
  have pcs: "map percentCompleted (ticks sample_transfer) = [Fin 0, Fin 34, Fin 34, Fin 100]"
    by (simp add: sample_transfer_def small_tick_percent)
  from useUpload_progress_monotone[OF ok res, of idle] show ?thesis
    by (auto simp: pcs idle_def)
qed

theorem percent_without_total_witness:
  "onUploadProgress (Some record_percent) \<lparr>loaded = 0, total = 0\<rparr> [] = [NaN] \<and>
   onUploadProgress (Some record_percent) \<lparr>loaded = 1024, total = 0\<rparr> [] = [PosInf] \<and>
   (\<exists>p::int. percentCompleted \<lparr>loaded = 67, total = 200\<rparr> = Fin (of_int p))"
  using percent_without_total[of "\<lparr>loaded = 0, total = 0\<rparr>" record_percent "[]"]
    percent_without_total[of "\<lparr>loaded = 1024, total = 0\<rparr>" record_percent "[]"]
    percent_without_total[of "\<lparr>loaded = 67, total = 200\<rparr>"]
  by (simp add: record_percent_def)

theorem queryDocuments_unrestricted_witness:
  "queryDocuments sample_post ''total revenue?'' Undefined (Val 5) =
     ([POST ''/query/'' \<lparr>query = ''total revenue?'', document_ids = Null, top_k = Val 5\<rparr>], Inr 14) \<and>
   queryDocuments sample_post ''total revenue?'' Null (Val 5) =
     ([POST ''/query/'' \<lparr>query = ''total revenue?'', document_ids = Null, top_k = Val 5\<rparr>], Inr 14)"
proof -
  have post: "sample_post ''/query/'' \<lparr>query = ''total revenue?'', document_ids = Null, top_k = Val 5\<rparr> =
      Inr \<lparr>data = 14\<rparr>"
    by (simp add: sample_post_def)
  from queryDocuments_unrestricted[of Undefined sample_post "''total revenue?''" 5, OF _ post]
    queryDocuments_unrestricted[of Null sample_post "''total revenue?''" 5, OF _ post]
  show ?thesis by simp
qed

end
